theory Spec2Isabelle
  imports Complex_Main "HOL-Library.Multiset" "HOL-Library.Sublist" "HOL-Library.Log_Nat"
begin

section \<open>Sentiment pipeline: the embedded program\<close>

text \<open>
  The development embeds the sentiment ingestion pipeline of the repository: the text
  processor (\<^verbatim>\<open>processor.js\<close>: \<^verbatim>\<open>analyzeText\<close>), the stand-alone server
  (\<^verbatim>\<open>index.js\<close>: \<^verbatim>\<open>POST /api/ingest\<close>, \<^verbatim>\<open>GET /api/display/:id\<close>) and the hub's router
  (\<^verbatim>\<open>routes/sentiment.js\<close>: \<^verbatim>\<open>POST /ingest\<close>, \<^verbatim>\<open>GET /display/:id\<close>).

  Conventions. A JavaScript string is a \<^typ>\<open>string\<close>; only ASCII characters belong to a
  character class of the two regular expressions, so every other code unit behaves like
  any character outside the classes. A sentiment score is a finite JavaScript number,
  that is a \<^typ>\<open>real\<close>; the arithmetic of \<^verbatim>\<open>(score + 1) * 5\<close> is IEEE 754 binary64:
  each operation rounds its exact result to the nearest double, a tie going to the even
  significand. Counters are \<^typ>\<open>int\<close>. The VADER analyser, the built-in
  \<^verbatim>\<open>String.prototype.toLowerCase\<close>, the CSV row stream and the SQL driver are outside
  the repository: the analyser is a parameter \<open>polarity\<close>, the case mapping a parameter
  \<open>lower\<close>, the stream is the list of events it emits, and the driver is a small store
  with an injectable fault.
\<close>

subsection \<open>JavaScript values that reach \<^verbatim>\<open>analyzeText\<close>\<close>

datatype jsval = JUndefined | JStr string | JObject

fun truthy :: "jsval \<Rightarrow> bool" where
  "truthy JUndefined = False"
| "truthy (JStr s) = (s \<noteq> [])"
| "truthy JObject = True"

fun is_string :: "jsval \<Rightarrow> bool" where
  "is_string (JStr s) = True"
| "is_string v = False"

text \<open>\<^verbatim>\<open>a || b\<close>\<close>

definition js_or :: "jsval \<Rightarrow> jsval \<Rightarrow> jsval" where
  "js_or a b = (if truthy a then a else b)"

text \<open>\<^verbatim>\<open>s || d\<close> for an optional form field \<open>s\<close> and a string literal \<open>d\<close>.\<close>

definition or_default :: "string option \<Rightarrow> string \<Rightarrow> string" where
  "or_default s d = (case s of None \<Rightarrow> d | Some v \<Rightarrow> if v = [] then d else v)"

subsection \<open>Character classes\<close>

definition is_digit :: "char \<Rightarrow> bool" where
  "is_digit c = (c \<in> set ''0123456789'')"

definition is_lower :: "char \<Rightarrow> bool" where
  "is_lower c = (c \<in> set ''abcdefghijklmnopqrstuvwxyz'')"

definition is_upper :: "char \<Rightarrow> bool" where
  "is_upper c = (c \<in> set ''ABCDEFGHIJKLMNOPQRSTUVWXYZ'')"

text \<open>\<^verbatim>\<open>[a-z]\<close> under the flag \<^verbatim>\<open>i\<close>\<close>

definition is_letter :: "char \<Rightarrow> bool" where
  "is_letter c = (is_lower c \<or> is_upper c)"

text \<open>\<^verbatim>\<open>\w\<close>, which decides \<^verbatim>\<open>\b\<close>\<close>

definition is_word :: "char \<Rightarrow> bool" where
  "is_word c = (is_letter c \<or> is_digit c \<or> c = CHR ''_'')"

text \<open>\<^verbatim>\<open>[a-z0-9._%+-]\<close> under the flag \<^verbatim>\<open>i\<close>\<close>

definition is_local :: "char \<Rightarrow> bool" where
  "is_local c = (is_letter c \<or> is_digit c \<or> c \<in> set ''._%+-'')"

text \<open>\<^verbatim>\<open>[a-z0-9.-]\<close> under the flag \<^verbatim>\<open>i\<close>\<close>

definition is_domain :: "char \<Rightarrow> bool" where
  "is_domain c = (is_letter c \<or> is_digit c \<or> c \<in> set ''.-'')"

text \<open>\<^verbatim>\<open>[-.]\<close>\<close>

definition is_sep :: "char \<Rightarrow> bool" where
  "is_sep c = (c \<in> set ''-.'')"

text \<open>
  The case mapping of the sample runs: \<^verbatim>\<open>String.prototype.toLowerCase\<close> on a string of
  ASCII characters. The program itself takes the case mapping as the parameter
  \<open>lower\<close>, and every theorem holds for every such function.
\<close>

definition lower_char :: "char \<Rightarrow> char" where
  "lower_char c =
     (case map_of (zip ''ABCDEFGHIJKLMNOPQRSTUVWXYZ'' ''abcdefghijklmnopqrstuvwxyz'') c of
        None \<Rightarrow> c | Some l \<Rightarrow> l)"

definition ascii_lower :: "string \<Rightarrow> string" where
  "ascii_lower s = map lower_char s"

subsection \<open>A backtracking matcher for the regular expressions of the processor\<close>

text \<open>
  Both patterns of \<^verbatim>\<open>analyzeText\<close> are sequences of greedy quantified character classes
  and word boundaries. \<open>Rep p lo hi\<close> is the class \<open>p\<close> repeated between \<open>lo\<close> and \<open>hi\<close>
  times (\<open>None\<close>: no upper bound), greedy; \<open>WordB\<close> is \<^verbatim>\<open>\b\<close>.
\<close>

datatype item = Rep "char \<Rightarrow> bool" nat "nat option" | WordB

type_synonym regex = "item list"

abbreviation Lit :: "char \<Rightarrow> item" where
  "Lit c \<equiv> Rep (\<lambda>x. x = c) 1 (Some 1)"

abbreviation Plus :: "(char \<Rightarrow> bool) \<Rightarrow> item" where
  "Plus p \<equiv> Rep p 1 None"

abbreviation Opt :: "(char \<Rightarrow> bool) \<Rightarrow> item" where
  "Opt p \<equiv> Rep p 0 (Some 1)"

abbreviation Exactly :: "nat \<Rightarrow> (char \<Rightarrow> bool) \<Rightarrow> item" where
  "Exactly n p \<equiv> Rep p n (Some n)"

abbreviation AtLeast :: "nat \<Rightarrow> (char \<Rightarrow> bool) \<Rightarrow> item" where
  "AtLeast n p \<equiv> Rep p n None"

text \<open>The character before the current position, after the text \<open>u\<close> has been read.\<close>

definition lastc :: "char option \<Rightarrow> string \<Rightarrow> char option" where
  "lastc prev u = (if u = [] then prev else Some (last u))"

definition first :: "string \<Rightarrow> char option" where
  "first s = (case s of [] \<Rightarrow> None | c # _ \<Rightarrow> Some c)"

definition word_at :: "char option \<Rightarrow> bool" where
  "word_at c = (case c of None \<Rightarrow> False | Some x \<Rightarrow> is_word x)"

text \<open>
  \<open>run r prev s\<close> lists, in the order in which the backtracking matcher reaches them, the
  numbers of characters of \<open>s\<close> that a match of \<open>r\<close> starting at the head of \<open>s\<close> can
  consume; \<open>prev\<close> is the character before \<open>s\<close>. A greedy quantifier tries the longest
  repetition first.
\<close>

fun run :: "regex \<Rightarrow> char option \<Rightarrow> string \<Rightarrow> nat list" where
  "run [] prev s = [0]"
| "run (WordB # r) prev s =
     (if word_at prev \<noteq> word_at (first s) then run r prev s else [])"
| "run (Rep p lo hi # r) prev s =
     (let k = length (takeWhile p s);
          k' = (case hi of None \<Rightarrow> k | Some h \<Rightarrow> min h k)
      in concat (map (\<lambda>j. map ((+) j) (run r (lastc prev (take j s)) (drop j s)))
                     (rev [lo..<Suc k'])))"

text \<open>The match the engine reports at a position: the first one reached.\<close>

definition exec :: "regex \<Rightarrow> char option \<Rightarrow> string \<Rightarrow> nat option" where
  "exec r prev s = (case run r prev s of [] \<Rightarrow> None | n # _ \<Rightarrow> Some n)"

text \<open>
  \<^verbatim>\<open>text.replace(/r/g, rep)\<close> for a replacement without \<^verbatim>\<open>$\<close>: the scan tries each
  position from left to right, copies a character where nothing matches, and continues
  after a match; after an empty match it copies one character and moves on.
\<close>

fun replaceAll :: "regex \<Rightarrow> string \<Rightarrow> char option \<Rightarrow> string \<Rightarrow> string" where
  "replaceAll r rep prev [] = (case exec r prev [] of None \<Rightarrow> [] | Some n \<Rightarrow> rep)"
| "replaceAll r rep prev (c # cs) =
     (case exec r prev (c # cs) of
        None \<Rightarrow> c # replaceAll r rep (Some c) cs
      | Some 0 \<Rightarrow> rep @ c # replaceAll r rep (Some c) cs
      | Some (Suc n) \<Rightarrow> rep @ replaceAll r rep (lastc (Some c) (take n cs)) (drop n cs))"

text \<open>The character \<open>x\<close> belongs to no class of \<open>r\<close>.\<close>

fun avoids :: "regex \<Rightarrow> char \<Rightarrow> bool" where
  "avoids [] x = True"
| "avoids (WordB # r) x = avoids r x"
| "avoids (Rep p lo hi # r) x = (\<not> p x \<and> avoids r x)"

text \<open>No position of \<open>t\<close> starts a match of \<open>r\<close>.\<close>

fun clean :: "regex \<Rightarrow> char option \<Rightarrow> string \<Rightarrow> bool" where
  "clean r prev [] = (exec r prev [] = None)"
| "clean r prev (c # cs) = (exec r prev (c # cs) = None \<and> clean r (Some c) cs)"

text \<open>
  The scan of \<open>s\<close> replaces something: a prefix \<open>g\<close> is copied, a match starts after
  it, and the output goes on with the replacement.
\<close>

definition first_match :: "regex \<Rightarrow> string \<Rightarrow> char option \<Rightarrow> string \<Rightarrow> bool" where
  "first_match r rep prev s \<longleftrightarrow>
     (\<exists>g s2 n t2. s = g @ s2 \<and> exec r (lastc prev g) s2 = Some n \<and>
        replaceAll r rep prev s = g @ rep @ t2)"

subsection \<open>\<^verbatim>\<open>processor.js\<close>\<close>

text \<open>\<^verbatim>\<open>/[a-z0-9._%+-]+@[a-z0-9.-]+\.[a-z]{2,}/gi\<close>\<close>

definition email_re :: regex where
  "email_re = [Plus is_local, Lit CHR ''@'', Plus is_domain, Lit CHR ''.'', AtLeast 2 is_letter]"

text \<open>\<^verbatim>\<open>/\b\d{3}[-.]?\d{3}[-.]?\d{4}\b/g\<close>\<close>

definition phone_re :: regex where
  "phone_re = [WordB, Exactly 3 is_digit, Opt is_sep, Exactly 3 is_digit, Opt is_sep,
               Exactly 4 is_digit, WordB]"

definition email_pass :: "char option \<Rightarrow> string \<Rightarrow> string" where
  "email_pass = replaceAll email_re ''[EMAIL]''"

definition phone_pass :: "char option \<Rightarrow> string \<Rightarrow> string" where
  "phone_pass = replaceAll phone_re ''[PHONE]''"

text \<open>Stage 1 of \<^verbatim>\<open>analyzeText\<close>: the two chained \<^verbatim>\<open>replace\<close> calls.\<close>

definition redact :: "string \<Rightarrow> string" where
  "redact t = phone_pass None (email_pass None t)"

record analysis =
  score :: real
  redacted :: string

text \<open>
  \<open>polarity\<close> stands for \<^verbatim>\<open>vader.SentimentIntensityAnalyzer.polarity_scores(_).compound\<close>.
  A value that passes the guard is a string, so the last case is never reached.
\<close>

definition analyzeText :: "(string \<Rightarrow> real) \<Rightarrow> jsval \<Rightarrow> analysis" where
  "analyzeText polarity t =
     (if \<not> truthy t \<or> \<not> is_string t then \<lparr>score = 0, redacted = []\<rparr>
      else (case t of
              JStr s \<Rightarrow> (let red = redact s in \<lparr>score = polarity red, redacted = red\<rparr>)
            | _ \<Rightarrow> \<lparr>score = 0, redacted = []\<rparr>))"

subsection \<open>The histogram binner and the \<^verbatim>\<open>data\<close> listener\<close>

text \<open>
  A finite double is a real number; an operation on doubles can overflow to an
  infinity. (\<^verbatim>\<open>NaN\<close> does not arise from a finite score here.)
\<close>

datatype num = Num real | PosInf | NegInf

text \<open>The power of two with the integer exponent \<open>e\<close>.\<close>

definition pow2 :: "int \<Rightarrow> real" where
  "pow2 e = (if 0 \<le> e then 2 ^ nat e else 1 / 2 ^ nat (- e))"

text \<open>
  The binary exponent of \<open>a > 0\<close>: \<open>pow2 (expo a) \<le> a < pow2 (expo a + 1)\<close>, computed
  from the bit length of \<open>\<lfloor>a\<rfloor>\<close> or of \<open>\<lceil>1 / a\<rceil> - 1\<close>.
\<close>

definition expo :: "real \<Rightarrow> int" where
  "expo a = (if 1 \<le> a then bitlen \<lfloor>a\<rfloor> - 1 else - bitlen (\<lceil>1 / a\<rceil> - 1))"

text \<open>The nearest integer, a tie going to the even one.\<close>

definition round_even :: "real \<Rightarrow> int" where
  "round_even y =
     (let f = \<lfloor>y\<rfloor>; d = y - of_int f
      in if d < 1 / 2 then f else if 1 / 2 < d then f + 1 else if even f then f else f + 1)"

text \<open>
  Rounding an exact result \<open>x\<close> to binary64. The spacing of the doubles around \<open>x\<close> is
  \<open>pow2 q\<close>, 52 binary places below the exponent of \<open>x\<close> and never below
  \<open>pow2 (- 1074)\<close> (subnormal numbers); \<open>x\<close> goes to the nearest multiple
  \<open>m * pow2 q\<close>, a tie to the even \<open>m\<close>; and a result of magnitude \<open>pow2 1024\<close> or
  more, which is one where \<open>m\<close> has more than \<open>1024 - q\<close> bits, is an infinity.
\<close>

definition fl :: "real \<Rightarrow> num" where
  "fl x =
     (if x = 0 then Num 0
      else (let q = max (expo \<bar>x\<bar>) (- 1022) - 52;
                m = round_even (\<bar>x\<bar> / pow2 q)
            in if 1024 < bitlen m + q then (if 0 < x then PosInf else NegInf)
               else Num (sgn x * of_int m * pow2 q)))"

text \<open>\<^verbatim>\<open>a + b\<close> for finite \<open>a\<close> and \<open>b\<close>\<close>

definition js_add :: "real \<Rightarrow> real \<Rightarrow> num" where
  "js_add a b = fl (a + b)"

text \<open>\<^verbatim>\<open>a * b\<close> for a finite positive \<open>b\<close>\<close>

fun js_times :: "num \<Rightarrow> real \<Rightarrow> num" where
  "js_times (Num a) b = fl (a * b)"
| "js_times PosInf b = PosInf"
| "js_times NegInf b = NegInf"

text \<open>
  \<^verbatim>\<open>Math.round\<close> of a finite number: the nearest integer, a tie going towards
  \<open>+\<infinity>\<close>. The result is exact: every double of magnitude \<open>pow2 52\<close> or more is an
  integer already.
\<close>

definition Math_round :: "real \<Rightarrow> int" where
  "Math_round x = \<lfloor>x + 1 / 2\<rfloor>"

text \<open>\<^verbatim>\<open>(score + 1) * 5\<close>\<close>

definition scaled :: "real \<Rightarrow> num" where
  "scaled s = js_times (js_add s 1) 5"

text \<open>
  \<^verbatim>\<open>Math.min(10, Math.max(0, Math.round((score + 1) * 5)))\<close>. \<^verbatim>\<open>Math.round\<close> keeps an
  infinity, \<^verbatim>\<open>Math.max(0, _)\<close> turns \<open>-\<infinity>\<close> into 0 and \<^verbatim>\<open>Math.min(10, _)\<close> turns
  \<open>+\<infinity>\<close> into 10.
\<close>

definition binIndex :: "real \<Rightarrow> int" where
  "binIndex s =
     (case scaled s of
        Num x \<Rightarrow> min 10 (max 0 (Math_round x))
      | PosInf \<Rightarrow> 10
      | NegInf \<Rightarrow> 0)"

text \<open>
  A parsed CSV row: the own properties of the row object, in the order of
  \<^verbatim>\<open>Object.keys\<close>. The accumulator of the \<^verbatim>\<open>reduce\<close> is a plain object \<^verbatim>\<open>{}\<close>: it holds
  the string properties assigned to it and inherits the members of
  \<^verbatim>\<open>Object.prototype\<close>; assigning a string to \<^verbatim>\<open>__proto__\<close> changes nothing.
\<close>

type_synonym row = "(string \<times> string) list"

definition Object_prototype_keys :: "string list" where
  "Object_prototype_keys =
     [''constructor'', ''__defineGetter__'', ''__defineSetter__'', ''hasOwnProperty'',
      ''__lookupGetter__'', ''__lookupSetter__'', ''isPrototypeOf'', ''propertyIsEnumerable'',
      ''toString'', ''valueOf'', ''__proto__'', ''toLocaleString'']"

definition obj_set :: "(string \<rightharpoonup> string) \<Rightarrow> string \<Rightarrow> string \<Rightarrow> (string \<rightharpoonup> string)" where
  "obj_set acc k v = (if k = ''__proto__'' then acc else acc(k \<mapsto> v))"

definition obj_get :: "(string \<rightharpoonup> string) \<Rightarrow> string \<Rightarrow> jsval" where
  "obj_get acc k =
     (case acc k of
        Some v \<Rightarrow> JStr v
      | None \<Rightarrow> if k \<in> set Object_prototype_keys then JObject else JUndefined)"

text \<open>\<^verbatim>\<open>Object.keys(row).reduce((acc, key) => { acc[key.toLowerCase()] = row[key]; return acc; }, {})\<close>\<close>

definition normalizedRow :: "(string \<Rightarrow> string) \<Rightarrow> row \<Rightarrow> (string \<rightharpoonup> string)" where
  "normalizedRow lower r = fold (\<lambda>(k, v) acc. obj_set acc (lower k) v) r Map.empty"

text \<open>\<^verbatim>\<open>normalizedRow[postCol] || ''\<close>\<close>

definition textOf :: "(string \<Rightarrow> string) \<Rightarrow> string \<Rightarrow> row \<Rightarrow> jsval" where
  "textOf lower postCol r = js_or (obj_get (normalizedRow lower r) postCol) (JStr [])"

text \<open>
  \<^verbatim>\<open>bins[binIndex]++\<close>. Outside the array JavaScript would add a property holding
  \<^verbatim>\<open>NaN\<close> and leave the counters as they are; \<open>binIndex\<close> never yields such an index.
\<close>

definition incr :: "int list \<Rightarrow> int \<Rightarrow> int list" where
  "incr bins i =
     (if 0 \<le> i \<and> i < int (length bins) then bins[nat i := bins ! nat i + 1] else bins)"

definition rowIndex :: "(string \<Rightarrow> real) \<Rightarrow> (string \<Rightarrow> string) \<Rightarrow> string \<Rightarrow> row \<Rightarrow> int" where
  "rowIndex polarity lower postCol r =
     binIndex (score (analyzeText polarity (textOf lower postCol r)))"

text \<open>The body of \<^verbatim>\<open>stream.on('data', ...)\<close>, the same in both servers.\<close>

definition onData ::
  "(string \<Rightarrow> real) \<Rightarrow> (string \<Rightarrow> string) \<Rightarrow> string \<Rightarrow> row \<Rightarrow> int list \<Rightarrow> int list" where
  "onData polarity lower postCol r bins = incr bins (rowIndex polarity lower postCol r)"

text \<open>\<^verbatim>\<open>new Array(11).fill(0)\<close>, then one call of the listener for each row.\<close>

definition histogram ::
  "(string \<Rightarrow> real) \<Rightarrow> (string \<Rightarrow> string) \<Rightarrow> string \<Rightarrow> row list \<Rightarrow> int list" where
  "histogram polarity lower postCol rows =
     fold (onData polarity lower postCol) rows (replicate 11 0)"

subsection \<open>The row stream\<close>

text \<open>
  The events of the piped CSV stream, in the order of emission: \<^verbatim>\<open>data\<close>, \<^verbatim>\<open>end\<close> and
  \<^verbatim>\<open>error\<close>. Both servers register listeners for \<^verbatim>\<open>data\<close> and \<^verbatim>\<open>end\<close> only.
\<close>

datatype event = Data row | End | Failure string

datatype stream_result = Flowing "int list" | Ended "int list" | Errored string

fun run_stream ::
  "(string \<Rightarrow> real) \<Rightarrow> (string \<Rightarrow> string) \<Rightarrow> string \<Rightarrow> event list \<Rightarrow> int list
     \<Rightarrow> stream_result" where
  "run_stream polarity lower postCol [] bins = Flowing bins"
| "run_stream polarity lower postCol (Data r # es) bins =
     run_stream polarity lower postCol es (onData polarity lower postCol r bins)"
| "run_stream polarity lower postCol (End # es) bins = Ended bins"
| "run_stream polarity lower postCol (Failure e # es) bins = Errored e"

subsection \<open>The aggregate store\<close>

text \<open>
  The table \<^verbatim>\<open>sentiment_aggregates\<close> behind the SQL driver: an auto-increment key, the
  title and the eleven counters. A statement sent while \<open>fault\<close> is set is rejected
  with that message.
\<close>

record aggregate =
  project_title :: string
  hist :: "int list"

record store =
  table :: "nat \<rightharpoonup> aggregate"
  next_id :: nat
  fault :: "string option"

definition insert_aggregate :: "store \<Rightarrow> string \<Rightarrow> int list \<Rightarrow> string + (nat \<times> store)" where
  "insert_aggregate st title bins =
     (case fault st of
        Some msg \<Rightarrow> Inl msg
      | None \<Rightarrow>
          Inr (next_id st,
               st\<lparr>table := (table st)(next_id st \<mapsto> \<lparr>project_title = title, hist = bins\<rparr>),
                  next_id := Suc (next_id st)\<rparr>))"

text \<open>\<^verbatim>\<open>SELECT * FROM sentiment_aggregates WHERE id = ?\<close>: the rows found.\<close>

definition select_aggregate :: "store \<Rightarrow> nat \<Rightarrow> string + (nat \<times> aggregate) list" where
  "select_aggregate st i =
     (case fault st of
        Some msg \<Rightarrow> Inl msg
      | None \<Rightarrow> Inr (case table st i of None \<Rightarrow> [] | Some a \<Rightarrow> [(i, a)]))"

subsection \<open>Requests and responses\<close>

datatype payload =
    Error_payload string
  | Ingest_payload nat "int list" "string option"
  | Row_payload "nat \<times> aggregate"

record response =
  status :: nat
  payload :: payload

text \<open>
  What a handler does with a request: it sends a response; or the promise of the
  \<^verbatim>\<open>async\<close> handler rejects before anything is sent (\<open>Rejected\<close>); or an error is thrown
  from an event listener with nothing to catch it (\<open>Uncaught\<close>), so nothing is sent; or
  the stream has not ended and nothing has been sent yet (\<open>Pending\<close>).
\<close>

datatype outcome = Responded response | Rejected string | Uncaught string | Pending

datatype source = Throws string | Emits "event list"

record upload =
  path :: string
  source :: source

record ingest_request =
  csv_file :: "upload option"
  post_column :: "string option"
  chart_title :: "string option"

text \<open>\<^verbatim>\<open>process.env.DB_HOST ? 'Institutional' : 'Sandbox'\<close>\<close>

definition mode :: "string option \<Rightarrow> string" where
  "mode db_host = (case db_host of None \<Rightarrow> ''Sandbox''
                   | Some h \<Rightarrow> if h = [] then ''Sandbox'' else ''Institutional'')"

subsection \<open>\<^verbatim>\<open>index.js\<close>: the stand-alone server\<close>

text \<open>
  \<^verbatim>\<open>app.post('/api/ingest', ...)\<close>. The \<^verbatim>\<open>try\<close> around the stream set-up catches what
  \<^verbatim>\<open>createReadStream(...).pipe(csv())\<close> throws while it is called; the \<^verbatim>\<open>try\<close> inside the
  \<^verbatim>\<open>end\<close> listener catches a rejected insert. Removing the temporary file comes after the
  response and is left out.
\<close>

definition ingest_index ::
  "(string \<Rightarrow> real) \<Rightarrow> (string \<Rightarrow> string) \<Rightarrow> string option \<Rightarrow> store \<Rightarrow> ingest_request
     \<Rightarrow> outcome \<times> store" where
  "ingest_index polarity lower db_host st req =
     (case csv_file req of
        None \<Rightarrow> (Responded \<lparr>status = 400, payload = Error_payload ''No CSV file detected.''\<rparr>, st)
      | Some f \<Rightarrow>
          (let postCol = lower (or_default (post_column req) ''post'');
               projectTitle = or_default (chart_title req) ''New Analysis''
           in case source f of
                Throws msg \<Rightarrow>
                  (Responded \<lparr>status = 500,
                              payload = Error_payload (''Critical Stream Error: '' @ msg)\<rparr>, st)
              | Emits es \<Rightarrow>
                  (case run_stream polarity lower postCol es (replicate 11 0) of
                     Flowing bins \<Rightarrow> (Pending, st)
                   | Errored e \<Rightarrow> (Uncaught e, st)
                   | Ended bins \<Rightarrow>
                       (case insert_aggregate st projectTitle bins of
                          Inl msg \<Rightarrow>
                            (Responded \<lparr>status = 500,
                                payload = Error_payload (''Database Persistence Error: '' @ msg)\<rparr>,
                             st)
                        | Inr (i, st') \<Rightarrow>
                            (Responded \<lparr>status = 200,
                                payload = Ingest_payload i bins (Some (mode db_host))\<rparr>,
                             st')))))"

text \<open>\<^verbatim>\<open>app.get('/api/display/:id', ...)\<close>\<close>

definition display_index :: "store \<Rightarrow> nat \<Rightarrow> outcome" where
  "display_index st i =
     (case select_aggregate st i of
        Inl msg \<Rightarrow> Responded \<lparr>status = 500, payload = Error_payload (''Query Error: '' @ msg)\<rparr>
      | Inr rows \<Rightarrow>
          (case rows of
             [] \<Rightarrow> Responded \<lparr>status = 404, payload = Error_payload ''Dataset not found.''\<rparr>
           | r # _ \<Rightarrow> Responded \<lparr>status = 200, payload = Row_payload r\<rparr>))"

subsection \<open>\<^verbatim>\<open>routes/sentiment.js\<close>: the router of the hub\<close>

text \<open>
  \<^verbatim>\<open>router.post('/ingest', ...)\<close> has no guard and no \<^verbatim>\<open>try\<close>: reading
  \<^verbatim>\<open>req.file.path\<close> of a request without a file throws inside the handler, and a
  rejected insert rejects the promise of the \<^verbatim>\<open>end\<close> listener.
\<close>

definition ingest_router ::
  "(string \<Rightarrow> real) \<Rightarrow> (string \<Rightarrow> string) \<Rightarrow> store \<Rightarrow> ingest_request \<Rightarrow> outcome \<times> store" where
  "ingest_router polarity lower st req =
     (let postCol = lower (or_default (post_column req) ''post'');
          title = or_default (chart_title req) ''New Analysis''
      in case csv_file req of
           None \<Rightarrow> (Rejected ''TypeError: cannot read property path of undefined'', st)
         | Some f \<Rightarrow>
             (case source f of
                Throws msg \<Rightarrow> (Rejected msg, st)
              | Emits es \<Rightarrow>
                  (case run_stream polarity lower postCol es (replicate 11 0) of
                     Flowing bins \<Rightarrow> (Pending, st)
                   | Errored e \<Rightarrow> (Uncaught e, st)
                   | Ended bins \<Rightarrow>
                       (case insert_aggregate st title bins of
                          Inl msg \<Rightarrow> (Uncaught msg, st)
                        | Inr (i, st') \<Rightarrow>
                            (Responded \<lparr>status = 200, payload = Ingest_payload i bins None\<rparr>,
                             st')))))"

text \<open>\<^verbatim>\<open>router.get('/display/:id', ...)\<close>\<close>

definition display_router :: "store \<Rightarrow> nat \<Rightarrow> outcome" where
  "display_router st i =
     (case select_aggregate st i of
        Inl msg \<Rightarrow> Rejected msg
      | Inr rows \<Rightarrow>
          (case rows of
             [] \<Rightarrow> Responded \<lparr>status = 404, payload = Error_payload ''Record not found''\<rparr>
           | r # _ \<Rightarrow> Responded \<lparr>status = 200, payload = Row_payload r\<rparr>))"

subsection \<open>A sample run\<close>

text \<open>
  The scenario of the specification: three rows that the analyser scores 0.8, 0 and
  -0.8 (the doubles nearest to them), an empty store, and an upload with default form
  fields.
\<close>

definition demo_polarity :: "string \<Rightarrow> real" where
  "demo_polarity t =
     (if t = ''I love this'' then 3602879701896397 / 2 ^ 52
      else if t = ''I hate this'' then - 3602879701896397 / 2 ^ 52
      else 0)"

definition demo_rows :: "row list" where
  "demo_rows = [[(''Post'', ''I love this'')], [(''Post'', [])], [(''Post'', ''I hate this'')]]"

definition demo_store :: store where
  "demo_store = \<lparr>table = Map.empty, next_id = 1, fault = None\<rparr>"

definition demo_upload :: "event list \<Rightarrow> ingest_request" where
  "demo_upload es = \<lparr>csv_file = Some \<lparr>path = ''uploads/tmp'', source = Emits es\<rparr>,
                      post_column = None, chart_title = None\<rparr>"

section \<open>The matcher and the scan\<close>

text \<open>
  Membership in \<open>run\<close>: what a match consumes lies inside the text and inside the
  classes of the pattern, and whether a match of a given length exists depends only
  on the characters it consumes and on the word boundaries at its two ends.
\<close>

lemma mem_run_Rep:
  "n \<in> set (run (Rep p lo hi # r) prev s) \<longleftrightarrow>
     (\<exists>j. lo \<le> j \<and> j \<le> length (takeWhile p s) \<and> (case hi of None \<Rightarrow> True | Some h \<Rightarrow> j \<le> h)
          \<and> j \<le> n \<and> n - j \<in> set (run r (lastc prev (take j s)) (drop j s)))"
proof -
  define k' where "k' = (case hi of None \<Rightarrow> length (takeWhile p s) | Some h \<Rightarrow> min h (length (takeWhile p s)))"
  have bound: "j \<le> k' \<longleftrightarrow> j \<le> length (takeWhile p s) \<and> (case hi of None \<Rightarrow> True | Some h \<Rightarrow> j \<le> h)" for j
    by (cases hi) (auto simp: k'_def)
  have "run (Rep p lo hi # r) prev s =
      concat (map (\<lambda>j. map ((+) j) (run r (lastc prev (take j s)) (drop j s))) (rev [lo..<Suc k']))"
    by (simp add: Let_def k'_def del: upt_Suc)
  then have "n \<in> set (run (Rep p lo hi # r) prev s) \<longleftrightarrow>
      (\<exists>j. lo \<le> j \<and> j \<le> k' \<and> (\<exists>x \<in> set (run r (lastc prev (take j s)) (drop j s)). n = j + x))"
    by (auto simp del: upt_Suc run.simps)
  also have "\<dots> \<longleftrightarrow> (\<exists>j. lo \<le> j \<and> j \<le> k' \<and> j \<le> n \<and> n - j \<in> set (run r (lastc prev (take j s)) (drop j s)))"
    by (metis add_diff_cancel_left' le_add1 le_add_diff_inverse)
  finally show ?thesis by (simp add: bound conj_ac)
qed

declare run.simps(3) [simp del]

lemma le_takeWhile_iff:
  "j \<le> length (takeWhile p s) \<longleftrightarrow> j \<le> length s \<and> (\<forall>c \<in> set (take j s). p c)"
proof (induction s arbitrary: j)
  case Nil
  then show ?case by simp
next
  case (Cons a s)
  then show ?case by (cases j) auto
qed

lemma run_le_length: "n \<in> set (run r prev s) \<Longrightarrow> n \<le> length s"
proof (induction r arbitrary: n prev s)
  case Nil
  then show ?case by simp
next
  case (Cons a r)
  show ?case
  proof (cases a)
    case (Rep p lo hi)
    with Cons.prems obtain j where j: "j \<le> length (takeWhile p s)" "j \<le> n"
      "n - j \<in> set (run r (lastc prev (take j s)) (drop j s))"
      by (auto simp: mem_run_Rep)
    from Cons.IH[OF j(3)] have "n - j \<le> length s - j" by simp
    moreover from j(1) have "j \<le> length s" by (simp add: le_takeWhile_iff)
    ultimately show ?thesis using j(2) by linarith
  next
    case WordB
    with Cons show ?thesis by (auto split: if_splits)
  qed
qed

lemma run_chars:
  "n \<in> set (run r prev s) \<Longrightarrow> c \<in> set (take n s) \<Longrightarrow> \<exists>p lo hi. Rep p lo hi \<in> set r \<and> p c"
proof (induction r arbitrary: n prev s)
  case Nil
  then show ?case by simp
next
  case (Cons a r)
  show ?case
  proof (cases a)
    case (Rep p lo hi)
    with Cons.prems obtain j where j: "j \<le> length (takeWhile p s)" "j \<le> n"
      "n - j \<in> set (run r (lastc prev (take j s)) (drop j s))"
      by (auto simp: mem_run_Rep)
    have "take n s = take j s @ take (n - j) (drop j s)"
      using j(2) by (metis le_add_diff_inverse take_add)
    with Cons.prems(2) consider "c \<in> set (take j s)" | "c \<in> set (take (n - j) (drop j s))"
      by auto
    then show ?thesis
    proof cases
      case 1
      with j(1) have "p c" by (simp add: le_takeWhile_iff)
      with Rep show ?thesis by auto
    next
      case 2
      from Cons.IH[OF j(3) 2] show ?thesis by auto
    qed
  next
    case WordB
    with Cons.prems have "n \<in> set (run r prev s)" by (auto split: if_splits)
    from Cons.IH[OF this Cons.prems(2)] show ?thesis by auto
  qed
qed

lemma lastc_Nil [simp]: "lastc prev [] = prev"
  by (simp add: lastc_def)

lemma lastc_Cons [simp]: "lastc prev (c # u) = lastc (Some c) u"
  by (simp add: lastc_def)

lemma lastc_append [simp]: "lastc prev (u @ v) = lastc (lastc prev u) v"
  by (simp add: lastc_def)

lemma lastc_nonempty: "u \<noteq> [] \<Longrightarrow> lastc prev u = Some (last u)"
  by (simp add: lastc_def)

lemma first_simps [simp]: "first [] = None" "first (c # cs) = Some c"
  by (simp_all add: first_def)

lemma first_take: "0 < n \<Longrightarrow> first (take n s) = first s"
  by (cases s; cases n) auto

lemma exec_Some_mem: "exec r prev s = Some n \<Longrightarrow> n \<in> set (run r prev s)"
  by (auto simp: exec_def split: list.splits)

lemma exec_None_iff: "exec r prev s = None \<longleftrightarrow> set (run r prev s) = {}"
  by (auto simp: exec_def split: list.splits)

lemma exec_le_length: "exec r prev s = Some n \<Longrightarrow> n \<le> length s"
  by (auto dest: exec_Some_mem run_le_length)

lemma run_local:
  assumes "n \<in> set (run r prev s)" "take n s = take n s'"
    "WordB \<in> set r \<Longrightarrow> word_at (first (drop n s)) = word_at (first (drop n s')) \<and> word_at prev = word_at prev'"
  shows "n \<in> set (run r prev' s')"
  using assms
proof (induction r arbitrary: n prev prev' s s')
  case Nil
  then show ?case by simp
next
  case (Cons a r)
  show ?case
  proof (cases a)
    case (Rep p lo hi)
    with Cons.prems(1) obtain j where j: "lo \<le> j" "j \<le> length (takeWhile p s)"
      "case hi of None \<Rightarrow> True | Some h \<Rightarrow> j \<le> h" "j \<le> n"
      "n - j \<in> set (run r (lastc prev (take j s)) (drop j s))"
      by (auto simp: mem_run_Rep)
    from Cons.prems(1) have nle: "n \<le> length s" by (rule run_le_length)
    have tj: "take j s' = take j s"
      using Cons.prems(2) j(4) by (metis min.absorb1 take_take)
    have len': "n \<le> length s'"
      using Cons.prems(2) nle by (metis length_take min.absorb2 min.cobounded1)
    have j2: "j \<le> length (takeWhile p s')"
      using j(2,4) len' tj by (simp add: le_takeWhile_iff)
    have tk: "take (n - j) (drop j s) = take (n - j) (drop j s')"
      using Cons.prems(2) j(4) by (metis le_add_diff_inverse2 take_drop)
    have ctx: "WordB \<in> set r \<Longrightarrow>
        word_at (first (drop (n - j) (drop j s))) = word_at (first (drop (n - j) (drop j s')))
        \<and> word_at (lastc prev (take j s)) = word_at (lastc prev' (take j s'))"
      using Cons.prems(3) j(4) tj by (cases "take j s = []") (auto simp: lastc_def)
    from Cons.IH[OF j(5) tk ctx]
    have "n - j \<in> set (run r (lastc prev' (take j s')) (drop j s'))" by simp
    with j j2 Rep show ?thesis by (auto simp: mem_run_Rep)
  next
    case WordB
    with Cons.prems(1) have b: "word_at prev \<noteq> word_at (first s)" and m: "n \<in> set (run r prev s)"
      by (auto split: if_splits)
    have ctx: "word_at (first (drop n s)) = word_at (first (drop n s'))" "word_at prev = word_at prev'"
      using Cons.prems(3) WordB by auto
    have "word_at (first s) = word_at (first s')"
    proof (cases n)
      case 0
      with ctx show ?thesis by simp
    next
      case (Suc k)
      then have "first s = first (take n s)" "first s' = first (take n s')"
        by (simp_all add: first_take)
      with Cons.prems(2) show ?thesis by simp
    qed
    moreover have "n \<in> set (run r prev' s')"
      using Cons.IH[OF m Cons.prems(2)] ctx by simp
    ultimately show ?thesis using WordB b ctx by simp
  qed
qed

lemma run_prev_indep:
  "WordB \<notin> set r \<Longrightarrow> run r prev s = run r prev' s"
proof (induction r arbitrary: prev prev' s)
  case Nil
  then show ?case by simp
next
  case (Cons a r)
  then show ?case
  proof (cases a)
    case (Rep p lo hi)
    from Cons have "\<And>j. run r (lastc prev (take j s)) (drop j s) = run r (lastc prev' (take j s)) (drop j s)"
      by simp
    with Rep show ?thesis by (simp add: run.simps(3))
  next
    case WordB
    with Cons.prems show ?thesis by simp
  qed
qed



lemma run_avoids:
  "n \<in> set (run r prev s) \<Longrightarrow> avoids r x \<Longrightarrow> x \<notin> set (take n s)"
proof
  assume a: "n \<in> set (run r prev s)" "avoids r x" "x \<in> set (take n s)"
  from run_chars[OF a(1,3)] obtain p lo hi where "Rep p lo hi \<in> set r" "p x" by blast
  with a(2) show False by (induction r x rule: avoids.induct) auto
qed

lemma run_append:
  "n \<in> set (run (r @ r2) prev s) \<longleftrightarrow>
     (\<exists>m. m \<le> n \<and> m \<in> set (run r prev s) \<and> n - m \<in> set (run r2 (lastc prev (take m s)) (drop m s)))"
proof (induction r arbitrary: n prev s)
  case Nil
  then show ?case by simp
next
  case (Cons a r)
  show ?case
  proof (cases a)
    case (Rep p lo hi)
    have tk: "take j s @ take m (drop j s) = take (j + m) s" for j m
      by (simp add: take_add)
    show ?thesis
    proof
      assume "n \<in> set (run ((a # r) @ r2) prev s)"
      then obtain j where j: "lo \<le> j" "j \<le> length (takeWhile p s)"
        "case hi of None \<Rightarrow> True | Some h \<Rightarrow> j \<le> h" "j \<le> n"
        "n - j \<in> set (run (r @ r2) (lastc prev (take j s)) (drop j s))"
        using Rep by (auto simp: mem_run_Rep)
      from j(5) obtain m where m: "m \<le> n - j" "m \<in> set (run r (lastc prev (take j s)) (drop j s))"
        "n - j - m \<in> set (run r2 (lastc (lastc prev (take j s)) (take m (drop j s))) (drop m (drop j s)))"
        using Cons.IH by blast
      have "j + m \<le> n" using m(1) j(4) by simp
      moreover have "j + m \<in> set (run (a # r) prev s)"
        using j m(2) Rep by (auto simp: mem_run_Rep)
      moreover have "n - (j + m) \<in> set (run r2 (lastc prev (take (j + m) s)) (drop (j + m) s))"
        using m(3) by (simp add: tk[symmetric] add.commute)
      ultimately show "\<exists>m\<le>n. m \<in> set (run (a # r) prev s) \<and>
            n - m \<in> set (run r2 (lastc prev (take m s)) (drop m s))" by blast
    next
      assume "\<exists>m\<le>n. m \<in> set (run (a # r) prev s) \<and>
            n - m \<in> set (run r2 (lastc prev (take m s)) (drop m s))"
      then obtain m where m: "m \<le> n" "m \<in> set (run (a # r) prev s)"
        "n - m \<in> set (run r2 (lastc prev (take m s)) (drop m s))" by blast
      from m(2) obtain j where j: "lo \<le> j" "j \<le> length (takeWhile p s)"
        "case hi of None \<Rightarrow> True | Some h \<Rightarrow> j \<le> h" "j \<le> m"
        "m - j \<in> set (run r (lastc prev (take j s)) (drop j s))"
        using Rep by (auto simp: mem_run_Rep)
      have jm: "j + (m - j) = m" using j(4) by simp
      have "n - j - (m - j) \<in> set (run r2 (lastc (lastc prev (take j s)) (take (m - j) (drop j s)))
               (drop (m - j) (drop j s)))"
        using m(3) j(4) m(1) tk[of j "m - j"] by (simp add: jm add.commute flip: lastc_append)
      moreover have "m - j \<le> n - j" using m(1) by simp
      ultimately have "n - j \<in> set (run (r @ r2) (lastc prev (take j s)) (drop j s))"
        using Cons.IH j(5) by blast
      with j m(1) Rep show "n \<in> set (run ((a # r) @ r2) prev s)"
        by (auto simp: mem_run_Rep)
    qed
  next
    case WordB
    then show ?thesis using Cons.IH by auto
  qed
qed

section \<open>A scan leaves nothing to replace\<close>

text \<open>A text without a match is copied by the scan.\<close>

lemma exec_Nil: "exec r prev [] \<noteq> Some (Suc n)"
  using exec_le_length[of r prev "[]" "Suc n"] by auto

lemma replaceAll_clean: "clean r prev t \<Longrightarrow> replaceAll r rep prev t = t"
  by (induction t arbitrary: prev) auto

lemma clean_first: "clean r prev t \<Longrightarrow> exec r prev t = None"
  by (cases t) auto

lemma clean_prev_change: "clean r prev t \<Longrightarrow> exec r prev' t = None \<Longrightarrow> clean r prev' t"
  by (cases t) auto

lemma clean_append:
  assumes "\<And>a b. a @ b = u \<Longrightarrow> b \<noteq> [] \<Longrightarrow> exec r (lastc prev a) (b @ v) = None"
    and "clean r (lastc prev u) v"
  shows "clean r prev (u @ v)"
  using assms
proof (induction u arbitrary: prev)
  case Nil
  then show ?case by simp
next
  case (Cons c u)
  have "exec r prev ((c # u) @ v) = None"
    using Cons.prems(1)[of "[]" "c # u"] by simp
  moreover have "clean r (Some c) (u @ v)"
  proof (rule Cons.IH)
    fix a b assume "a @ b = u" "b \<noteq> []"
    then show "exec r (lastc (Some c) a) (b @ v) = None"
      using Cons.prems(1)[of "c # a" b] by simp
  next
    show "clean r (lastc (Some c) u) v" using Cons.prems(2) by simp
  qed
  ultimately show ?case by simp
qed

lemma clean_drop: "clean r prev s \<Longrightarrow> clean r (lastc prev (take n s)) (drop n s)"
proof (induction s arbitrary: prev n)
  case Nil
  then show ?case by simp
next
  case (Cons c s)
  then show ?case by (cases n) auto
qed

lemma first_matchI:
  "s = g @ s2 \<Longrightarrow> exec r (lastc prev g) s2 = Some n \<Longrightarrow> replaceAll r rep prev s = g @ rep @ t2
    \<Longrightarrow> first_match r rep prev s"
  unfolding first_match_def
  by (rule exI[of _ g], rule exI[of _ s2], rule exI[of _ n], rule exI[of _ t2]) (intro conjI; assumption)

lemma first_matchE:
  assumes "first_match r rep prev s"
  obtains g s2 n t2 where "s = g @ s2" "exec r (lastc prev g) s2 = Some n"
    "replaceAll r rep prev s = g @ rep @ t2"
proof -
  from assms obtain g where "\<exists>s2 n t2. s = g @ s2 \<and> exec r (lastc prev g) s2 = Some n \<and> replaceAll r rep prev s = g @ rep @ t2"
    unfolding first_match_def ..
  then obtain s2 where "\<exists>n t2. s = g @ s2 \<and> exec r (lastc prev g) s2 = Some n \<and> replaceAll r rep prev s = g @ rep @ t2" ..
  then obtain n where "\<exists>t2. s = g @ s2 \<and> exec r (lastc prev g) s2 = Some n \<and> replaceAll r rep prev s = g @ rep @ t2" ..
  then obtain t2 where "s = g @ s2 \<and> exec r (lastc prev g) s2 = Some n \<and> replaceAll r rep prev s = g @ rep @ t2" ..
  then show thesis using that by (elim conjE)
qed

lemma replaceAll_first_match:
  "replaceAll r rep prev s = s \<or> first_match r rep prev s"
proof (induction s arbitrary: prev)
  case Nil
  show ?case
  proof (cases "exec r prev []")
    case None
    then show ?thesis by simp
  next
    case (Some n)
    have "first_match r rep prev []"
      by (rule first_matchI[of _ "[]" "[]" _ _ n _ "[]"]) (simp_all add: Some)
    then show ?thesis ..
  qed
next
  case (Cons c cs)
  show ?case
  proof (cases "exec r prev (c # cs)")
    case None
    from Cons.IH[of "Some c"] show ?thesis
    proof
      assume "replaceAll r rep (Some c) cs = cs"
      with None show ?thesis by simp
    next
      assume "first_match r rep (Some c) cs"
      then obtain g s2 n t2 where g: "cs = g @ s2" "exec r (lastc (Some c) g) s2 = Some n"
          "replaceAll r rep (Some c) cs = g @ rep @ t2" by (rule first_matchE)
      have R: "replaceAll r rep prev (c # cs) = c # replaceAll r rep (Some c) cs"
        using None by simp
      have "first_match r rep prev (c # cs)"
      proof (rule first_matchI[of _ "c # g" s2 _ _ n _ t2])
        show "c # cs = (c # g) @ s2" using g(1) by simp
        show "exec r (lastc prev (c # g)) s2 = Some n" using g(2) by simp
        show "replaceAll r rep prev (c # cs) = (c # g) @ rep @ t2" unfolding R g(3) by simp
      qed
      then show ?thesis ..
    qed
  next
    case (Some n)
    have "\<exists>t2. replaceAll r rep prev (c # cs) = rep @ t2"
    proof (cases n)
      case 0
      with Some have "replaceAll r rep prev (c # cs) = rep @ (c # replaceAll r rep (Some c) cs)"
        by simp
      then show ?thesis ..
    next
      case (Suc k)
      with Some have "replaceAll r rep prev (c # cs)
          = rep @ replaceAll r rep (lastc (Some c) (take k cs)) (drop k cs)"
        by simp
      then show ?thesis ..
    qed
    then obtain t2 where t2: "replaceAll r rep prev (c # cs) = rep @ t2" ..
    have "first_match r rep prev (c # cs)"
    proof (rule first_matchI[of _ "[]" "c # cs" _ _ n _ t2])
      show "c # cs = [] @ c # cs" by simp
      show "exec r (lastc prev []) (c # cs) = Some n" using Some by simp
      show "replaceAll r rep prev (c # cs) = [] @ rep @ t2" using t2 by simp
    qed
    then show ?thesis ..
  qed
qed

text \<open>
  The output of a scan holds no match, for a pattern whose matches are not empty, stay
  matches when the text after them is redacted, and cannot start inside the replacement
  or right after it.
\<close>

lemma replaceAll_is_clean:
  assumes H1: "\<And>prev s. exec r prev s \<noteq> Some 0"
    and H2: "\<And>prev w t s2 n. exec r prev (w @ rep @ t) = Some n \<Longrightarrow> exec r (lastc prev w) s2 \<noteq> None
              \<Longrightarrow> exec r prev (w @ s2) \<noteq> None"
    and H3: "\<And>a b pr t. a @ b = rep \<Longrightarrow> b \<noteq> [] \<Longrightarrow> exec r pr (b @ t) = None"
    and H4: "\<And>prev s n x t t'. exec r prev s = Some n \<Longrightarrow> drop n s = x # t
              \<Longrightarrow> exec r (Some (last rep)) (x # t') = exec r (lastc prev (take n s)) (x # t')"
    and H0: "rep \<noteq> []"
  shows "clean r prev (replaceAll r rep prev s)"
proof (induction "length s" arbitrary: prev s rule: less_induct)
  case less
  have nil: "exec r pr [] = None" for pr
  proof (cases "exec r pr []")
    case None
    then show ?thesis .
  next
    case (Some a)
    from exec_le_length[OF this] have "a = 0" by simp
    with Some H1[of pr "[]"] show ?thesis by simp
  qed
  show ?case
  proof (cases s)
    case Nil
    then show ?thesis using nil by simp
  next
    case (Cons c cs)
    show ?thesis
    proof (cases "exec r prev (c # cs)")
      case None
      let ?T = "replaceAll r rep (Some c) cs"
      have IH: "clean r (Some c) ?T" by (rule less) (simp add: Cons)
      have "exec r prev (c # ?T) = None"
      proof (rule ccontr)
        assume "exec r prev (c # ?T) \<noteq> None"
        then obtain k where k: "exec r prev (c # ?T) = Some k" by auto
        from replaceAll_first_match[of r rep "Some c" cs] show False
        proof
          assume "?T = cs" with k None show False by simp
        next
          assume "first_match r rep (Some c) cs"
          then obtain g s2 n t2 where g: "cs = g @ s2" "exec r (lastc (Some c) g) s2 = Some n"
            "?T = g @ rep @ t2" by (rule first_matchE)
          from k g(3) have "exec r prev ((c # g) @ rep @ t2) = Some k" by simp
          from H2[OF this, of s2] g(2) have "exec r prev ((c # g) @ s2) \<noteq> None" by simp
          with None g(1) show False by simp
        qed
      qed
      with IH None Cons show ?thesis by simp
    next
      case (Some m)
      with H1 obtain n where m: "m = Suc n" by (cases m) auto
      let ?pr = "lastc (Some c) (take n cs)"
      let ?rest = "drop n cs"
      let ?T = "replaceAll r rep ?pr ?rest"
      have R: "replaceAll r rep prev s = rep @ ?T" using Some m Cons by simp
      have IH: "clean r ?pr ?T" by (rule less) (simp add: Cons)
      have H4': "exec r (Some (last rep)) (x # t') = exec r ?pr (x # t')" if "?rest = x # t" for x t t'
        using H4[of prev "c # cs" "Suc n" x t t'] Some m that by simp
      have "exec r (Some (last rep)) ?T = None"
      proof (cases ?T)
        case Nil
        then show ?thesis using nil by simp
      next
        case T: (Cons y t')
        from replaceAll_first_match[of r rep ?pr ?rest] show ?thesis
        proof
          assume eq: "?T = ?rest"
          with T have "?rest = y # t'" by simp
          from H4'[OF this, of t'] have "exec r (Some (last rep)) ?T = exec r ?pr ?T" using T by simp
          with clean_first[OF IH] show ?thesis by simp
        next
          assume "first_match r rep ?pr ?rest"
          then obtain g s2 n2 t2 where g: "?rest = g @ s2" "?T = g @ rep @ t2" by (rule first_matchE)
          show ?thesis
          proof (cases g)
            case Nil
            with g(2) H3[of "[]" rep "Some (last rep)" t2] H0 show ?thesis by simp
          next
            case (Cons x g')
            with g have "?rest = x # (g' @ s2)" "?T = x # (g' @ rep @ t2)" by simp_all
            from H4'[OF this(1), of "g' @ rep @ t2"] this(2)
            have "exec r (Some (last rep)) ?T = exec r ?pr ?T" by simp
            with clean_first[OF IH] show ?thesis by simp
          qed
        qed
      qed
      with IH have "clean r (Some (last rep)) ?T" by (rule clean_prev_change)
      then have "clean r (lastc prev rep) ?T" using H0 by (simp add: lastc_def)
      moreover have "\<And>a b. a @ b = rep \<Longrightarrow> b \<noteq> [] \<Longrightarrow> exec r (lastc prev a) (b @ ?T) = None"
        by (rule H3)
      ultimately have "clean r prev (rep @ ?T)" by (rule clean_append[rotated])
      with R show ?thesis by simp
    qed
  qed
qed

lemma exec_Nil_None: "(\<And>prev s. exec r prev s \<noteq> Some 0) \<Longrightarrow> exec r pr [] = None"
proof (cases "exec r pr []")
  case None
  then show ?thesis .
next
  case (Some a)
  assume H1: "\<And>prev s. exec r prev s \<noteq> Some 0"
  from exec_le_length[OF Some] have "a = 0" by simp
  with Some H1[of pr "[]"] show ?thesis by simp
qed

lemma clean_indep:
  assumes "\<And>pr pr' s. exec r pr s = exec r pr' s"
  shows "clean r pr t = clean r pr' t"
  using assms[of pr t pr'] by (cases t) auto

lemma foreign_replace_keeps_clean:
  assumes K1: "\<And>prev w t s2 n. exec re prev (w @ rep @ t) = Some n \<Longrightarrow> exec re prev (w @ s2) \<noteq> None"
    and K2: "\<And>a b pr t. a @ b = rep \<Longrightarrow> b \<noteq> [] \<Longrightarrow> exec re pr (b @ t) = None"
    and K3: "\<And>pr pr' s. exec re pr s = exec re pr' s"
    and Hp1: "\<And>prev s. exec rp prev s \<noteq> Some 0"
  shows "clean re prev' s \<Longrightarrow> clean re prev' (replaceAll rp rep prev s)"
proof (induction "length s" arbitrary: prev prev' s rule: less_induct)
  case less
  show ?case
  proof (cases s)
    case Nil
    then show ?thesis using less.prems exec_Nil_None[of rp prev, OF Hp1] by simp
  next
    case (Cons c cs)
    from less.prems Cons have c0: "exec re prev' (c # cs) = None" and c1: "clean re (Some c) cs"
      by simp_all
    show ?thesis
    proof (cases "exec rp prev (c # cs)")
      case None
      let ?T = "replaceAll rp rep (Some c) cs"
      have IH: "clean re (Some c) ?T" by (rule less(1)) (simp_all add: Cons c1)
      have "exec re prev' (c # ?T) = None"
      proof (rule ccontr)
        assume "exec re prev' (c # ?T) \<noteq> None"
        then obtain k where k: "exec re prev' (c # ?T) = Some k" by auto
        from replaceAll_first_match[of rp rep "Some c" cs] show False
        proof
          assume "?T = cs" with k c0 show False by simp
        next
          assume "first_match rp rep (Some c) cs"
          then obtain g s2 n t2 where g: "cs = g @ s2" "exec rp (lastc (Some c) g) s2 = Some n"
            "?T = g @ rep @ t2" by (rule first_matchE)
          from k g(3) have "exec re prev' ((c # g) @ rep @ t2) = Some k" by simp
          from K1[OF this, of s2] have "exec re prev' ((c # g) @ s2) \<noteq> None" .
          with c0 g(1) show False by simp
        qed
      qed
      with IH None Cons show ?thesis by simp
    next
      case (Some m)
      with Hp1 obtain n where m: "m = Suc n" by (cases m) auto
      let ?pr = "lastc (Some c) (take n cs)"
      let ?rest = "drop n cs"
      let ?T = "replaceAll rp rep ?pr ?rest"
      have R: "replaceAll rp rep prev s = rep @ ?T" using Some m Cons by simp
      have "clean re (lastc (Some c) (take n cs)) ?rest" using c1 by (rule clean_drop)
      then have "clean re (lastc prev' rep) ?rest" using clean_indep[of re, OF K3] by blast
      then have IH: "clean re (lastc prev' rep) ?T" by (rule less(1)[rotated]) (simp add: Cons)
      moreover have "\<And>a b. a @ b = rep \<Longrightarrow> b \<noteq> [] \<Longrightarrow> exec re (lastc prev' a) (b @ ?T) = None"
        by (rule K2)
      ultimately have "clean re prev' (rep @ ?T)" by (rule clean_append[rotated])
      with R show ?thesis by simp
    qed
  qed
qed

lemma stable_no_boundary:
  assumes "WordB \<notin> set r" "avoids r x" "exec r prev (w @ x # t) = Some n"
  shows "exec r prev' (w @ s2) \<noteq> None"
proof -
  from assms(3) have n: "n \<in> set (run r prev (w @ x # t))" by (rule exec_Some_mem)
  from run_avoids[OF n assms(2)] have "x \<notin> set (take n (w @ x # t))" .
  then have le: "n \<le> length w"
    by (cases "n \<le> length w") (auto simp: not_le take_Cons')
  then have "take n (w @ x # t) = take n (w @ s2)" by simp
  from run_local[OF n this, of prev'] assms(1) have "n \<in> set (run r prev' (w @ s2))" by simp
  then show ?thesis by (auto simp: exec_None_iff)
qed

lemma exec_prev_indep: "WordB \<notin> set r \<Longrightarrow> exec r prev s = exec r prev' s"
  by (simp add: exec_def run_prev_indep[of r prev s prev'])

lemmas class_defs = is_local_def is_domain_def is_letter_def is_lower_def is_upper_def
  is_digit_def is_sep_def is_word_def

lemma email_no_WordB: "WordB \<notin> set email_re"
  by (simp add: email_re_def)

lemma email_nonempty: "exec email_re prev s \<noteq> Some 0"
proof
  assume "exec email_re prev s = Some 0"
  then have "0 \<in> set (run email_re prev s)" by (rule exec_Some_mem)
  then show False by (simp add: email_re_def mem_run_Rep)
qed

lemma email_avoids: "avoids email_re CHR ''[''"
  by (simp add: email_re_def class_defs)

lemma run_Rep_head:
  "0 < lo \<Longrightarrow> \<not> p x \<Longrightarrow> run (Rep p lo hi # r) prev (x # t) = []"
  by (cases hi) (simp_all add: run.simps(3))

lemma phone_head: "\<not> is_digit x \<Longrightarrow> run phone_re prev (x # t) = []"
  by (simp add: phone_re_def run_Rep_head)

lemma phone_Nil: "run phone_re prev [] = []"
  by (simp add: phone_re_def run.simps(3))

section \<open>The two patterns of the processor\<close>

text \<open>
  The facts about the e-mail and the telephone pattern that the lemmas on scans ask
  for: no match is empty, no match contains a bracket, no match starts inside a
  placeholder, and a telephone match ends in a digit that a non-word character follows.
\<close>

lemma at_not_local: "\<not> is_local CHR ''@''"
  by (simp add: class_defs)

lemma letter_is_local: "is_letter c \<Longrightarrow> is_local c"
  by (simp add: is_local_def)

lemma letter_not_digit: "is_letter c \<Longrightarrow> \<not> is_digit c"
  by (auto simp: is_letter_def is_lower_def is_upper_def is_digit_def)

lemma email_blocked:
  assumes "\<forall>c\<in>set u. is_local c" "\<not> is_local y" "y \<noteq> CHR ''@''"
  shows "run email_re pr (u @ y # t) = []"
proof (rule ccontr)
  assume "run email_re pr (u @ y # t) \<noteq> []"
  then obtain n where "n \<in> set (run email_re pr (u @ y # t))" by (cases "run email_re pr (u @ y # t)") auto
  then obtain j j2 where j: "1 \<le> j" "j \<le> length (takeWhile is_local (u @ y # t))"
    "1 \<le> j2" "j2 \<le> length (takeWhile (\<lambda>x. x = CHR ''@'') (drop j (u @ y # t)))"
    unfolding email_re_def mem_run_Rep by auto
  have "takeWhile is_local (u @ y # t) = u"
    using assms(1,2) by (simp add: takeWhile_append2)
  with j(2) have ju: "j \<le> length u" by simp
  then have d: "drop j (u @ y # t) = drop j u @ y # t" by simp
  have "takeWhile (\<lambda>x. x = CHR ''@'') (drop j u @ y # t) = []"
  proof (cases "drop j u")
    case Nil
    then show ?thesis using assms(3) by simp
  next
    case (Cons a list)
    then have "a \<in> set u" by (metis in_set_dropD list.set_intros(1))
    with assms(1) at_not_local have "a \<noteq> CHR ''@''" by auto
    with Cons show ?thesis by simp
  qed
  with j(3,4) d show False by simp
qed

lemma suffix_bracket_cases:
  assumes "a @ b = CHR ''['' # w @ '']''" "b \<noteq> []"
  obtains "b = CHR ''['' # w @ '']''" | w1 w2 where "w = w1 @ w2" "b = w2 @ '']''"
proof (cases a)
  case Nil
  with assms that(1) show ?thesis by simp
next
  case (Cons x a')
  with assms(1) have eq: "a' @ b = w @ '']''" by simp
  from assms(2) obtain b' z where b: "b = b' @ [z]" by (metis rev_exhaust)
  with eq have "a' @ b' = w" "z = CHR '']''" by (auto simp flip: append_assoc)
  with b that(2)[of a' b'] show ?thesis by simp
qed

lemma email_inert:
  assumes "\<forall>c\<in>set w. is_letter c" "a @ b = CHR ''['' # w @ '']''" "b \<noteq> []"
  shows "exec email_re pr (b @ t) = None"
  using assms(2,3)
proof (cases rule: suffix_bracket_cases)
  case 1
  have "run email_re pr ([] @ CHR ''['' # (w @ '']'' @ t)) = []"
    by (rule email_blocked) (simp_all add: class_defs)
  with 1 show ?thesis by (simp add: exec_def)
next
  case (2 w1 w2)
  have "run email_re pr (w2 @ CHR '']'' # t) = []"
    using assms(1) 2(1) by (intro email_blocked) (auto simp: class_defs)
  with 2 show ?thesis by (simp add: exec_def)
qed

lemma phone_inert:
  assumes "\<forall>c\<in>set w. is_letter c" "a @ b = CHR ''['' # w @ '']''" "b \<noteq> []"
  shows "exec phone_re pr (b @ t) = None"
proof -
  from assms(3) obtain x b' where b: "b = x # b'" by (cases b) auto
  then have "x \<in> set (CHR ''['' # w @ '']'')" using assms(2)
    by (metis in_set_conv_decomp)
  then have "x = CHR ''['' \<or> x = CHR '']'' \<or> is_letter x" using assms(1) by auto
  then have "\<not> is_digit x" using letter_not_digit by (auto simp: is_digit_def)
  then show ?thesis using b by (simp add: exec_def phone_head)
qed

lemma letters_EMAIL: "\<forall>c\<in>set ''EMAIL''. is_letter c"
  by (simp add: is_letter_def is_upper_def)

lemma letters_PHONE: "\<forall>c\<in>set ''PHONE''. is_letter c"
  by (simp add: is_letter_def is_upper_def)

lemma digit_is_word: "is_digit c \<Longrightarrow> is_word c"
  by (simp add: is_word_def)

lemma run_WordB_end: "k \<in> set (run [WordB] pr s) \<longleftrightarrow> k = 0 \<and> word_at pr \<noteq> word_at (first s)"
  by auto

lemma phone_shape:
  assumes "n \<in> set (run phone_re prev s)"
  shows "\<not> word_at prev \<and> 0 < n \<and> word_at (lastc prev (take n s)) \<and> \<not> word_at (first (drop n s))"
proof -
  have split: "phone_re = [WordB, Exactly 3 is_digit, Opt is_sep, Exactly 3 is_digit, Opt is_sep]
      @ [Exactly 4 is_digit, WordB]" by (simp add: phone_re_def)
  from assms obtain m where m: "m \<le> n"
    "n - m \<in> set (run [Exactly 4 is_digit, WordB] (lastc prev (take m s)) (drop m s))"
    unfolding split run_append by blast
  let ?pr = "lastc prev (take m s)" and ?s = "drop m s"
  from m(2) obtain j where j: "4 \<le> j" "j \<le> length (takeWhile is_digit ?s)" "j \<le> 4" "j \<le> n - m"
    "n - m - j \<in> set (run [WordB] (lastc ?pr (take j ?s)) (drop j ?s))"
    unfolding mem_run_Rep by auto
  from j(1,3) have j4: "j = 4" by simp
  from j(5) have k0: "n - m - j = 0" and bd: "word_at (lastc ?pr (take j ?s)) \<noteq> word_at (first (drop j ?s))"
    unfolding run_WordB_end by simp_all
  from k0 j(4) m(1) have n: "n = m + j" by simp
  from j(2) have len: "j \<le> length ?s" and dig: "\<forall>c\<in>set (take j ?s). is_digit c"
    by (simp_all add: le_takeWhile_iff)
  have ne: "take j ?s \<noteq> []" using len j4 by auto
  have tk: "take n s = take m s @ take j ?s" unfolding n by (simp add: take_add)
  have "lastc prev (take n s) = Some (last (take j ?s))"
    unfolding tk using ne by (simp add: lastc_def)
  moreover have "is_digit (last (take j ?s))" using dig ne last_in_set by blast
  ultimately have w: "word_at (lastc prev (take n s))" by (simp add: word_at_def digit_is_word)
  have "lastc ?pr (take j ?s) = lastc prev (take n s)" unfolding tk by simp
  moreover have "drop j ?s = drop n s" unfolding n by (simp add: add.commute)
  ultimately have e: "\<not> word_at (first (drop n s))" using bd w by simp
  from assms have b0: "word_at prev \<noteq> word_at (first s)"
    and r: "n \<in> set (run (tl phone_re) prev s)"
    by (auto simp: phone_re_def split: if_splits)
  from r obtain i where i: "3 \<le> i" "i \<le> length (takeWhile is_digit s)"
    unfolding phone_re_def list.sel mem_run_Rep by auto
  then obtain d s' where "s = d # s'" "is_digit d" by (cases s) (auto split: if_splits)
  then have "word_at (first s)" by (simp add: word_at_def digit_is_word)
  with b0 have "\<not> word_at prev" by simp
  with w e n j4 show ?thesis by simp
qed

lemma phone_nonempty: "exec phone_re prev s \<noteq> Some 0"
  using phone_shape[of 0 prev s] by (auto dest: exec_Some_mem)

lemma phone_avoids: "avoids phone_re CHR ''[''"
  by (simp add: phone_re_def class_defs)

lemma phone_stable:
  assumes "exec phone_re prev (w @ CHR ''['' # t) = Some n" "exec phone_re (lastc prev w) s2 \<noteq> None"
  shows "exec phone_re prev (w @ s2) \<noteq> None"
proof -
  let ?s = "w @ CHR ''['' # t"
  from assms(1) have n: "n \<in> set (run phone_re prev ?s)" by (rule exec_Some_mem)
  from run_avoids[OF n phone_avoids] have "CHR ''['' \<notin> set (take n ?s)" .
  then have le: "n \<le> length w"
    by (cases "n \<le> length w") (auto simp: not_le take_Cons')
  then have tk: "take n ?s = take n (w @ s2)" by simp
  show ?thesis
  proof (cases "n < length w")
    case True
    then have "first (drop n ?s) = first (drop n (w @ s2))"
      by (cases "drop n w") auto
    with run_local[OF n tk, of prev] have "n \<in> set (run phone_re prev (w @ s2))" by simp
    then show ?thesis by (auto simp: exec_None_iff)
  next
    case False
    with le have "take n ?s = w" by simp
    moreover from phone_shape[OF n] have "word_at (lastc prev (take n ?s))" by (elim conjE)
    ultimately have "word_at (lastc prev w)" by (simp only:)
    moreover from assms(2) obtain k where "k \<in> set (run phone_re (lastc prev w) s2)"
      by (auto dest: exec_Some_mem)
    from phone_shape[OF this] have "\<not> word_at (lastc prev w)" by simp
    ultimately show ?thesis by simp
  qed
qed

lemma phone_seam:
  assumes "exec phone_re prev s = Some n" "drop n s = x # t"
  shows "exec phone_re pr (x # t') = None"
proof -
  from assms(1) have "n \<in> set (run phone_re prev s)" by (rule exec_Some_mem)
  from phone_shape[OF this] assms(2) have "\<not> is_word x" by (simp add: word_at_def)
  then have "\<not> is_digit x" using digit_is_word by blast
  then show ?thesis by (simp add: exec_def phone_head)
qed

lemma email_pass_clean: "clean email_re prev (email_pass prev s)"
  unfolding email_pass_def
proof (rule replaceAll_is_clean)
  show "exec email_re prev s \<noteq> Some 0" for prev s by (rule email_nonempty)
  show "exec email_re prev (w @ ''[EMAIL]'' @ t) = Some n \<Longrightarrow> exec email_re (lastc prev w) s2 \<noteq> None
      \<Longrightarrow> exec email_re prev (w @ s2) \<noteq> None" for prev w t s2 n
    using stable_no_boundary[OF email_no_WordB email_avoids, of prev w "''EMAIL]'' @ t" n prev s2]
    by simp
  show "a @ b = ''[EMAIL]'' \<Longrightarrow> b \<noteq> [] \<Longrightarrow> exec email_re pr (b @ t) = None" for a b pr t
    using email_inert[OF letters_EMAIL, of a b pr t] by simp
  show "exec email_re (Some (last ''[EMAIL]'')) (x # t') = exec email_re (lastc prev (take n s)) (x # t')"
    for prev s n x t t'
    by (rule exec_prev_indep[OF email_no_WordB])
  show "''[EMAIL]'' \<noteq> []" by simp
qed

lemma phone_pass_clean: "clean phone_re prev (phone_pass prev s)"
  unfolding phone_pass_def
proof (rule replaceAll_is_clean)
  show "exec phone_re prev s \<noteq> Some 0" for prev s by (rule phone_nonempty)
  show "exec phone_re prev (w @ ''[PHONE]'' @ t) = Some n \<Longrightarrow> exec phone_re (lastc prev w) s2 \<noteq> None
      \<Longrightarrow> exec phone_re prev (w @ s2) \<noteq> None" for prev w t s2 n
    using phone_stable[of prev w "''PHONE]'' @ t" n s2] by simp
  show "a @ b = ''[PHONE]'' \<Longrightarrow> b \<noteq> [] \<Longrightarrow> exec phone_re pr (b @ t) = None" for a b pr t
    using phone_inert[OF letters_PHONE, of a b pr t] by simp
  show "exec phone_re prev s = Some n \<Longrightarrow> drop n s = x # t \<Longrightarrow>
      exec phone_re (Some (last ''[PHONE]'')) (x # t') = exec phone_re (lastc prev (take n s)) (x # t')"
    for prev s n x t t'
    by (simp add: phone_seam)
  show "''[PHONE]'' \<noteq> []" by simp
qed

lemma phone_pass_keeps_email_clean:
  "clean email_re prev' s \<Longrightarrow> clean email_re prev' (phone_pass prev s)"
  unfolding phone_pass_def
proof (rule foreign_replace_keeps_clean)
  show "exec email_re prev (w @ ''[PHONE]'' @ t) = Some n \<Longrightarrow> exec email_re prev (w @ s2) \<noteq> None"
    for prev w t s2 n
    using stable_no_boundary[OF email_no_WordB email_avoids, of prev w "''PHONE]'' @ t" n prev s2]
    by simp
  show "a @ b = ''[PHONE]'' \<Longrightarrow> b \<noteq> [] \<Longrightarrow> exec email_re pr (b @ t) = None" for a b pr t
    using email_inert[OF letters_PHONE, of a b pr t] by simp
  show "exec email_re pr s = exec email_re pr' s" for pr pr' s
    by (rule exec_prev_indep[OF email_no_WordB])
  show "exec phone_re prev s \<noteq> Some 0" for prev s by (rule phone_nonempty)
qed

section \<open>Redaction\<close>

lemma redact_fixpoint: "redact (redact x) = redact x"
proof -
  let ?z = "redact x"
  have "clean email_re None (email_pass None x)" by (rule email_pass_clean)
  then have "clean email_re None ?z" unfolding redact_def by (rule phone_pass_keeps_email_clean)
  then have "email_pass None ?z = ?z" unfolding email_pass_def by (rule replaceAll_clean)
  moreover have "clean phone_re None ?z" unfolding redact_def by (rule phone_pass_clean)
  then have "phone_pass None ?z = ?z" unfolding phone_pass_def by (rule replaceAll_clean)
  ultimately show ?thesis by (simp add: redact_def)
qed

lemma redacted_analyzeText:
  "redacted (analyzeText p v) = (case v of JStr x \<Rightarrow> redact x | _ \<Rightarrow> [])"
proof (cases v)
  case (JStr x)
  have "redact [] = []" by code_simp
  then show ?thesis using JStr by (cases x) (simp_all add: analyzeText_def Let_def)
qed (simp_all add: analyzeText_def)

text \<open>
  Claim C5. Redaction is idempotent: a second pass of the two replacements leaves
  redacted text unchanged, and so does a second call of \<^verbatim>\<open>analyzeText\<close> on the redacted
  text of a first.
\<close>

theorem redact_idempotent:
  "redact (redact x) = redact x
   \<and> redacted (analyzeText p (JStr (redacted (analyzeText p v)))) = redacted (analyzeText p v)"
proof -
  have "redact [] = []" by code_simp
  then show ?thesis
    by (cases v) (simp_all add: redacted_analyzeText redact_fixpoint)
qed

theorem redact_idempotent_witness:
  "redact ''call 555-123-4567 or bob@example.com'' = ''call [PHONE] or [EMAIL]''
   \<and> redact ''call [PHONE] or [EMAIL]'' = ''call [PHONE] or [EMAIL]''"
proof -
  have r: "redact ''call 555-123-4567 or bob@example.com'' = ''call [PHONE] or [EMAIL]''"
    by code_simp
  from redact_idempotent[of "''call 555-123-4567 or bob@example.com''"]
  have "redact (redact ''call 555-123-4567 or bob@example.com'')
      = redact ''call 555-123-4567 or bob@example.com''" by blast
  with r show ?thesis by simp
qed













section \<open>Binning and counting\<close>

lemma pow2_powi: "pow2 e = 2 powi e"
  by (simp add: pow2_def power_int_def inverse_eq_divide power_one_over)

lemma pow2_pos [simp]: "0 < pow2 e"
  by (simp add: pow2_def)

lemma pow2_add: "pow2 (a + b) = pow2 a * pow2 b"
  by (simp add: pow2_powi power_int_add)

lemma pow2_mono: "a \<le> b \<Longrightarrow> pow2 a \<le> pow2 b"
  unfolding pow2_powi by (rule power_int_increasing) simp_all

lemma pow2_less_imp: "pow2 a < pow2 b \<Longrightarrow> a < b"
  using pow2_mono[of b a] by (cases "a < b") simp_all

lemma pow2_nat: "0 \<le> e \<Longrightarrow> pow2 e = 2 ^ nat e"
  by (simp add: pow2_def)


lemma expo_upper: assumes "0 < a" shows "a < pow2 (expo a + 1)"
proof (cases "1 \<le> a")
  case True
  then have m: "0 < \<lfloor>a\<rfloor>" by simp
  have b0: "0 \<le> bitlen \<lfloor>a\<rfloor>" by (rule bitlen_nonneg)
  from bitlen_bounds[OF m] have "\<lfloor>a\<rfloor> < 2 ^ nat (bitlen \<lfloor>a\<rfloor>)" ..
  then have "\<lfloor>a\<rfloor> + 1 \<le> 2 ^ nat (bitlen \<lfloor>a\<rfloor>)" by simp
  then have "real_of_int (\<lfloor>a\<rfloor> + 1) \<le> real_of_int (2 ^ nat (bitlen \<lfloor>a\<rfloor>))" by (simp only: of_int_le_iff)
  then have A: "real_of_int \<lfloor>a\<rfloor> + 1 \<le> 2 ^ nat (bitlen \<lfloor>a\<rfloor>)" by simp
  have "a < real_of_int \<lfloor>a\<rfloor> + 1" by linarith
  with A have "a < 2 ^ nat (bitlen \<lfloor>a\<rfloor>)" by linarith
  then show ?thesis using True b0 by (simp add: expo_def pow2_nat)
next
  case False
  with assms have u: "1 < 1 / a" by simp
  let ?c = "\<lceil>1 / a\<rceil>"
  let ?k = "bitlen (?c - 1)"
  have c: "0 < ?c - 1" using u by (simp add: less_ceiling_iff)
  have k1: "1 \<le> ?k" using c by (simp add: bitlen_alt_def)
  from bitlen_bounds[OF c] have "2 ^ nat (?k - 1) \<le> ?c - 1" ..
  then have "real_of_int (2 ^ nat (?k - 1)) \<le> real_of_int (?c - 1)" by (simp only: of_int_le_iff)
  then have A: "2 ^ nat (?k - 1) \<le> real_of_int ?c - 1" by simp
  have "real_of_int ?c - 1 < 1 / a" using ceiling_correct[of "1 / a"] by linarith
  with A have "2 ^ nat (?k - 1) < 1 / a" by linarith
  then have "a * 2 ^ nat (?k - 1) < 1" using assms by (simp add: field_simps)
  then have "a < 1 / 2 ^ nat (?k - 1)" by (simp add: field_simps)
  moreover have "pow2 (- ?k + 1) = 1 / 2 ^ nat (?k - 1)"
    using k1 by (cases "?k = 1") (simp_all add: pow2_def)
  ultimately show ?thesis using False by (simp add: expo_def)
qed






lemma pow2_nonneg [simp]: "0 \<le> pow2 e"
  using pow2_pos[of e] by linarith

lemma pow2_neq0 [simp]: "pow2 e \<noteq> 0"
  using pow2_pos[of e] by linarith

text \<open>
  The overflow test of \<open>fl\<close>, which counts bits, is the comparison of the rounded
  magnitude with \<open>pow2 1024\<close>.
\<close>

lemma overflow_test:
  assumes "0 < m"
  shows "1024 < bitlen m + q \<longleftrightarrow> pow2 1024 \<le> of_int m * pow2 q"
proof -
  let ?b = "bitlen m"
  have b1: "1 \<le> ?b" using assms by (simp add: bitlen_alt_def)
  from bitlen_bounds[OF assms] have lo: "2 ^ nat (?b - 1) \<le> m" and hi: "m < 2 ^ nat ?b" by simp_all
  from lo have "real_of_int (2 ^ nat (?b - 1)) \<le> real_of_int m" by (simp only: of_int_le_iff)
  then have lo': "pow2 (?b - 1) \<le> of_int m" using b1 by (simp add: pow2_def)
  from hi have "real_of_int m < real_of_int (2 ^ nat ?b)" by (simp only: of_int_less_iff)
  then have hi': "of_int m < pow2 ?b" using b1 by (simp add: pow2_def)
  show ?thesis
  proof
    assume "1024 < ?b + q"
    then have "pow2 1024 \<le> pow2 (?b - 1 + q)" by (intro pow2_mono) simp
    also have "\<dots> = pow2 (?b - 1) * pow2 q" by (rule pow2_add)
    also have "\<dots> \<le> of_int m * pow2 q" using lo' by (intro mult_right_mono) simp_all
    finally show "pow2 1024 \<le> of_int m * pow2 q" .
  next
    assume a: "pow2 1024 \<le> of_int m * pow2 q"
    have "of_int m * pow2 q < pow2 ?b * pow2 q" using hi' by (intro mult_strict_right_mono) simp_all
    also have "\<dots> = pow2 (?b + q)" by (simp add: pow2_add)
    finally have "pow2 1024 < pow2 (?b + q)" using a by linarith
    then show "1024 < ?b + q" by (rule pow2_less_imp)
  qed
qed




lemma binIndex_range: "0 \<le> binIndex s \<and> binIndex s \<le> 10"
  by (simp add: binIndex_def split: num.split)



text \<open>
  The arithmetic matters: at the double 0.7 the sum rounds up to a double whose product
  with 5 is exactly 8.5, which goes to bucket 9, while the exact product is below 8.5.
\<close>

lemma double_product_at_tie:
  "scaled (3152519739159347 / 2 ^ 52) = Num (17 / 2)
   \<and> (3152519739159347 / 2 ^ 52 + 1) * 5 < (17 / 2 :: real)"
proof -
  have "scaled (3152519739159347 / 2 ^ 52) = Num (17 / 2)" by code_simp
  then show ?thesis by simp
qed

lemma length_incr [simp]: "length (incr bins i) = length bins"
  by (simp add: incr_def)

lemma sum_list_update_int:
  "k < length xs \<Longrightarrow> sum_list (xs[k := x]) = sum_list xs + x - (xs ! k :: int)"
proof (induction xs arbitrary: k)
  case Nil
  then show ?case by simp
next
  case (Cons a xs)
  then show ?case by (cases k) auto
qed

lemma incr_update:
  assumes "0 \<le> i" "i < int (length bins)"
  shows "incr bins i = bins[nat i := bins ! nat i + 1]" "nat i < length bins"
  using assms by (simp_all add: incr_def)

lemma sum_list_incr:
  "0 \<le> i \<Longrightarrow> i < int (length bins) \<Longrightarrow> sum_list (incr bins i) = sum_list bins + 1"
  by (simp add: incr_update sum_list_update_int)

lemma nonneg_incr: "\<forall>x\<in>set bins. 0 \<le> x \<Longrightarrow> \<forall>x\<in>set (incr bins i). 0 \<le> x"
proof (cases "0 \<le> i \<and> i < int (length bins)")
  case True
  assume a: "\<forall>x\<in>set bins. 0 \<le> x"
  from True have "incr bins i = bins[nat i := bins ! nat i + 1]" "nat i < length bins"
    by (simp_all add: incr_update)
  moreover have "0 \<le> bins ! nat i + 1" using a calculation(2) by (simp add: add_nonneg_nonneg)
  ultimately show ?thesis using a by (auto dest!: set_update_subset_insert[THEN subsetD])
next
  case False
  assume "\<forall>x\<in>set bins. 0 \<le> x"
  with False show ?thesis by (auto simp: incr_def)
qed

lemma rowIndex_range: "0 \<le> rowIndex p lc c r \<and> rowIndex p lc c r < 11"
  using binIndex_range[of "score (analyzeText p (textOf lc c r))"] by (simp add: rowIndex_def)

lemma fold_onData:
  assumes "length bins = 11"
  shows "length (fold (onData p lc c) rows bins) = 11"
    and "sum_list (fold (onData p lc c) rows bins) = sum_list bins + int (length rows)"
    and "\<forall>x\<in>set bins. 0 \<le> x \<Longrightarrow> \<forall>x\<in>set (fold (onData p lc c) rows bins). 0 \<le> x"
  using assms
proof (induction rows arbitrary: bins)
  case Nil
  {
    case 1 then show ?case by simp
  next
    case 2 then show ?case by simp
  next
    case 3 then show ?case by simp
  }
next
  case (Cons r rows)
  {
    case 1
    then show ?case using Cons.IH(1)[of "onData p lc c r bins"] by (simp add: onData_def)
  next
    case 2
    have "sum_list (onData p lc c r bins) = sum_list bins + 1"
      unfolding onData_def using rowIndex_range[of p lc c r] 2 by (intro sum_list_incr) simp_all
    then show ?case using Cons.IH(2)[of "onData p lc c r bins"] 2 by (simp add: onData_def)
  next
    case 3
    then have "\<forall>x\<in>set (onData p lc c r bins). 0 \<le> x" unfolding onData_def by (intro nonneg_incr)
    then show ?case using Cons.IH(3)[of "onData p lc c r bins"] 3 by (simp add: onData_def)
  }
qed

lemma histogram_snoc: "histogram p lc c (rows @ [r]) = onData p lc c r (histogram p lc c rows)"
  by (simp add: histogram_def)

lemma run_stream_rows:
  "run_stream p lc c (map Data rows @ es) bins = run_stream p lc c es (fold (onData p lc c) rows bins)"
  by (induction rows arbitrary: bins) simp_all

lemma ingest_index_ended:
  "ingest_index p lc h st \<lparr>csv_file = Some \<lparr>path = f, source = Emits (map Data rows @ End # es)\<rparr>,
        post_column = pc, chart_title = ct\<rparr>
   = (case insert_aggregate st (or_default ct ''New Analysis'')
               (histogram p lc (lc (or_default pc ''post'')) rows) of
        Inl msg \<Rightarrow> (Responded \<lparr>status = 500,
                      payload = Error_payload (''Database Persistence Error: '' @ msg)\<rparr>, st)
      | Inr (i, st') \<Rightarrow> (Responded \<lparr>status = 200,
                      payload = Ingest_payload i (histogram p lc (lc (or_default pc ''post'')) rows)
                                  (Some (mode h))\<rparr>, st'))"
  unfolding histogram_def by (simp add: ingest_index_def Let_def run_stream_rows)

lemma ingest_router_ended:
  "ingest_router p lc st \<lparr>csv_file = Some \<lparr>path = f, source = Emits (map Data rows @ End # es)\<rparr>,
        post_column = pc, chart_title = ct\<rparr>
   = (case insert_aggregate st (or_default ct ''New Analysis'')
               (histogram p lc (lc (or_default pc ''post'')) rows) of
        Inl msg \<Rightarrow> (Uncaught msg, st)
      | Inr (i, st') \<Rightarrow> (Responded \<lparr>status = 200,
                      payload = Ingest_payload i (histogram p lc (lc (or_default pc ''post'')) rows)
                                  None\<rparr>, st'))"
  unfolding histogram_def by (simp add: ingest_router_def Let_def run_stream_rows)

lemma ingest_index_failed:
  "ingest_index p lc h st \<lparr>csv_file = Some \<lparr>path = f, source = Emits (map Data rows @ Failure e # es)\<rparr>,
        post_column = pc, chart_title = ct\<rparr> = (Uncaught e, st)"
  by (simp add: ingest_index_def Let_def run_stream_rows)

lemma ingest_router_failed:
  "ingest_router p lc st \<lparr>csv_file = Some \<lparr>path = f, source = Emits (map Data rows @ Failure e # es)\<rparr>,
        post_column = pc, chart_title = ct\<rparr> = (Uncaught e, st)"
  by (simp add: ingest_router_def Let_def run_stream_rows)

text \<open>
  Claim C2. A run over \<open>n\<close> rows that reaches the end of the stream leaves eleven
  counters, none negative, that start at zero; each row increments exactly one of
  them, so they sum to \<open>n\<close>, whatever the rows hold; with a working store both servers
  answer with this histogram.
\<close>

theorem histogram_sums_to_rows:
  "length (histogram p lc c rows) = 11
   \<and> (\<forall>x\<in>set (histogram p lc c rows). 0 \<le> x)
   \<and> sum_list (histogram p lc c rows) = int (length rows)
   \<and> histogram p lc c [] = replicate 11 0
   \<and> (\<exists>i<11. histogram p lc c (rows @ [r]) = (histogram p lc c rows)[i := histogram p lc c rows ! i + 1])
   \<and> run_stream p lc c (map Data rows @ End # es) (replicate 11 0) = Ended (histogram p lc c rows)
   \<and> (fault st = None \<longrightarrow>
        fst (ingest_index p lc h st
              \<lparr>csv_file = Some \<lparr>path = f, source = Emits (map Data rows @ End # es)\<rparr>,
               post_column = pc, chart_title = ct\<rparr>)
          = Responded \<lparr>status = 200,
              payload = Ingest_payload (next_id st)
                 (histogram p lc (lc (or_default pc ''post'')) rows) (Some (mode h))\<rparr>
        \<and> fst (ingest_router p lc st
              \<lparr>csv_file = Some \<lparr>path = f, source = Emits (map Data rows @ End # es)\<rparr>,
               post_column = pc, chart_title = ct\<rparr>)
          = Responded \<lparr>status = 200,
              payload = Ingest_payload (next_id st)
                 (histogram p lc (lc (or_default pc ''post'')) rows) None\<rparr>)"
proof -
  have len: "length (histogram p lc c rows) = 11"
    unfolding histogram_def by (rule fold_onData(1)) simp
  have nonneg: "\<forall>x\<in>set (histogram p lc c rows). 0 \<le> x"
    unfolding histogram_def by (rule fold_onData(3)) simp_all
  have total: "sum_list (histogram p lc c rows) = int (length rows)"
    unfolding histogram_def by (simp add: fold_onData(2) sum_list_replicate)
  have start: "histogram p lc c [] = replicate 11 0"
    by (simp add: histogram_def)
  have step: "\<exists>i<11. histogram p lc c (rows @ [r]) = (histogram p lc c rows)[i := histogram p lc c rows ! i + 1]"
  proof -
    let ?i = "rowIndex p lc c r"
    from rowIndex_range[of p lc c r] len
    have "incr (histogram p lc c rows) ?i = (histogram p lc c rows)[nat ?i := histogram p lc c rows ! nat ?i + 1]"
      and "nat ?i < 11"
      by (simp add: incr_update, linarith)
    then show ?thesis unfolding histogram_snoc onData_def by blast
  qed
  have stream: "run_stream p lc c (map Data rows @ End # es) (replicate 11 0) = Ended (histogram p lc c rows)"
    by (simp add: run_stream_rows histogram_def)
  have handlers: "fault st = None \<longrightarrow>
        fst (ingest_index p lc h st
              \<lparr>csv_file = Some \<lparr>path = f, source = Emits (map Data rows @ End # es)\<rparr>,
               post_column = pc, chart_title = ct\<rparr>)
          = Responded \<lparr>status = 200,
              payload = Ingest_payload (next_id st)
                 (histogram p lc (lc (or_default pc ''post'')) rows) (Some (mode h))\<rparr>
        \<and> fst (ingest_router p lc st
              \<lparr>csv_file = Some \<lparr>path = f, source = Emits (map Data rows @ End # es)\<rparr>,
               post_column = pc, chart_title = ct\<rparr>)
          = Responded \<lparr>status = 200,
              payload = Ingest_payload (next_id st)
                 (histogram p lc (lc (or_default pc ''post'')) rows) None\<rparr>"
    by (simp add: ingest_index_ended ingest_router_ended insert_aggregate_def)
  from len nonneg total start step stream handlers show ?thesis by (intro conjI)
qed

lemma demo_histogram: "histogram demo_polarity ascii_lower ''post'' demo_rows = [0, 1, 0, 0, 0, 1, 0, 0, 0, 1, 0]"
  by code_simp

theorem histogram_sums_to_rows_witness:
  "sum_list (histogram demo_polarity ascii_lower ''post'' demo_rows) = 3
   \<and> fault demo_store = None
   \<and> fst (ingest_index demo_polarity ascii_lower None demo_store
             (demo_upload (map Data demo_rows @ [End])))
       = Responded \<lparr>status = 200,
           payload = Ingest_payload 1 [0, 1, 0, 0, 0, 1, 0, 0, 0, 1, 0] (Some ''Sandbox'')\<rparr>"
proof -
  have f: "fault demo_store = None" by (simp add: demo_store_def)
  have c: "ascii_lower (or_default None ''post'') = ''post''" by code_simp
  note w = histogram_sums_to_rows[of demo_polarity ascii_lower "''post''" demo_rows _ "[]" demo_store
      None "''uploads/tmp''" None None]
  from w have "sum_list (histogram demo_polarity ascii_lower ''post'' demo_rows)
      = int (length demo_rows)"
    by blast
  then have s: "sum_list (histogram demo_polarity ascii_lower ''post'' demo_rows) = 3"
    by (simp add: demo_rows_def)
  from w f have "fst (ingest_index demo_polarity ascii_lower None demo_store
        \<lparr>csv_file = Some \<lparr>path = ''uploads/tmp'', source = Emits (map Data demo_rows @ [End])\<rparr>,
         post_column = None, chart_title = None\<rparr>)
      = Responded \<lparr>status = 200,
           payload = Ingest_payload (next_id demo_store)
             (histogram demo_polarity ascii_lower (ascii_lower (or_default None ''post'')) demo_rows)
             (Some (mode None))\<rparr>" by blast
  then have "fst (ingest_index demo_polarity ascii_lower None demo_store
        (demo_upload (map Data demo_rows @ [End])))
      = Responded \<lparr>status = 200,
           payload = Ingest_payload 1 [0, 1, 0, 0, 0, 1, 0, 0, 0, 1, 0] (Some ''Sandbox'')\<rparr>"
    by (simp add: c demo_histogram demo_upload_def demo_store_def mode_def)
  with s f show ?thesis by simp
qed

lemma obj_set_other: "k \<noteq> c \<Longrightarrow> obj_set acc k v c = acc c"
  by (simp add: obj_set_def)

lemma normalizedRow_absent_aux:
  "c \<notin> set (map (lc \<circ> fst) r) \<Longrightarrow>
     fold (\<lambda>(k, v) acc. obj_set acc (lc k) v) r acc c = acc c"
proof (induction r arbitrary: acc)
  case Nil
  then show ?case by simp
next
  case (Cons kv r)
  obtain k v where kv: "kv = (k, v)" by (cases kv)
  with Cons.prems have "lc k \<noteq> c" "c \<notin> set (map (lc \<circ> fst) r)" by auto
  with Cons.IH[of "obj_set acc (lc k) v"] kv show ?case
    by (simp add: obj_set_other)
qed

lemma normalizedRow_absent:
  "c \<notin> set (map (lc \<circ> fst) r) \<Longrightarrow> normalizedRow lc r c = None"
  by (simp add: normalizedRow_def normalizedRow_absent_aux)

lemma analyzeText_empty:
  assumes "normalizedRow lc r c = None \<or> normalizedRow lc r c = Some []"
  shows "analyzeText p (textOf lc c r) = \<lparr>score = 0, redacted = []\<rparr>"
    and "c \<notin> set Object_prototype_keys \<Longrightarrow> textOf lc c r = JStr []"
  using assms by (auto simp: analyzeText_def textOf_def obj_get_def js_or_def)

lemma textOf_inherited:
  "normalizedRow lc r c = None \<Longrightarrow> c \<in> set Object_prototype_keys \<Longrightarrow> textOf lc c r = JObject"
  by (simp add: textOf_def obj_get_def js_or_def)

lemma binIndex_zero: "binIndex 0 = 5"
  by code_simp

text \<open>
  Claim C4 as stated fails where the configured column name is a member of
  \<^verbatim>\<open>Object.prototype\<close>: a row without a column \<^verbatim>\<open>constructor\<close> does not resolve to the
  empty string but to the inherited object.
\<close>

theorem missing_column_counterexample:
  "''constructor'' \<notin> set (map (ascii_lower \<circ> fst) [(''post'', ''hello'')])
   \<and> textOf ascii_lower ''constructor'' [(''post'', ''hello'')] = JObject
   \<and> textOf ascii_lower ''constructor'' [(''post'', ''hello'')] \<noteq> JStr []"
  by code_simp

text \<open>
  Claim C4, amended. A row without the configured column, or with the empty string in
  it, is analysed as empty text with score 0 (the type guard of \<^verbatim>\<open>analyzeText\<close> treats a
  value that is not a string like the empty string), falls into bucket 5, adds one to
  the total, and the run goes on with the next event. The looked-up value itself is the
  empty string when the column name is not a member of \<^verbatim>\<open>Object.prototype\<close>; when it is
  one and the row has no such column, the value is the inherited object.
\<close>

theorem missing_column_is_neutral:
  assumes "c \<notin> set (map (lc \<circ> fst) r) \<or> normalizedRow lc r c = Some []"
  shows "analyzeText p (textOf lc c r) = \<lparr>score = 0, redacted = []\<rparr>
    \<and> (c \<notin> set Object_prototype_keys \<longrightarrow> textOf lc c r = JStr [])
    \<and> (c \<in> set Object_prototype_keys \<and> c \<notin> set (map (lc \<circ> fst) r)
          \<longrightarrow> textOf lc c r = JObject)
    \<and> rowIndex p lc c r = 5
    \<and> (length bins = 11 \<longrightarrow> onData p lc c r bins = bins[5 := bins ! 5 + 1])
    \<and> run_stream p lc c (Data r # es) bins = run_stream p lc c es (onData p lc c r bins)
    \<and> sum_list (histogram p lc c (rows @ [r])) = sum_list (histogram p lc c rows) + 1"
proof -
  from assms have e: "normalizedRow lc r c = None \<or> normalizedRow lc r c = Some []"
    using normalizedRow_absent by blast
  have a: "analyzeText p (textOf lc c r) = \<lparr>score = 0, redacted = []\<rparr>"
    using e by (rule analyzeText_empty(1))
  have t: "c \<notin> set Object_prototype_keys \<longrightarrow> textOf lc c r = JStr []"
    using analyzeText_empty(2)[OF e] by blast
  have u: "c \<in> set Object_prototype_keys \<and> c \<notin> set (map (lc \<circ> fst) r)
          \<longrightarrow> textOf lc c r = JObject"
    using textOf_inherited[OF normalizedRow_absent] by blast
  have i: "rowIndex p lc c r = 5" by (simp add: rowIndex_def a binIndex_zero)
  have d: "length bins = 11 \<longrightarrow> onData p lc c r bins = bins[5 := bins ! 5 + 1]"
    by (simp add: onData_def i incr_def)
  have s: "run_stream p lc c (Data r # es) bins = run_stream p lc c es (onData p lc c r bins)"
    by simp
  have len: "length (histogram p lc c rows) = 11"
    unfolding histogram_def by (rule fold_onData(1)) simp
  have "sum_list (histogram p lc c (rows @ [r])) = sum_list (histogram p lc c rows) + 1"
    unfolding histogram_snoc onData_def using rowIndex_range[of p lc c r] len
    by (intro sum_list_incr) simp_all
  with a t u i d s show ?thesis by (intro conjI)
qed

theorem missing_column_is_neutral_witness:
  "''post'' \<notin> set (map (ascii_lower \<circ> fst) [(''Author'', ''eve'')])
   \<and> ''post'' \<notin> set Object_prototype_keys
   \<and> textOf ascii_lower ''post'' [(''Author'', ''eve'')] = JStr []
   \<and> rowIndex demo_polarity ascii_lower ''post'' [(''Author'', ''eve'')] = 5
   \<and> length (replicate 11 (0::int)) = 11
   \<and> onData demo_polarity ascii_lower ''post'' [(''Author'', ''eve'')] (replicate 11 0)
       = [0, 0, 0, 0, 0, 1, 0, 0, 0, 0, 0]
   \<and> normalizedRow ascii_lower [(''Post'', [])] ''post'' = Some []
   \<and> analyzeText demo_polarity (textOf ascii_lower ''post'' [(''Post'', [])])
       = \<lparr>score = 0, redacted = []\<rparr>
   \<and> ''constructor'' \<in> set Object_prototype_keys
   \<and> ''constructor'' \<notin> set (map (ascii_lower \<circ> fst) [(''post'', ''hello'')])
   \<and> analyzeText demo_polarity (textOf ascii_lower ''constructor'' [(''post'', ''hello'')])
       = \<lparr>score = 0, redacted = []\<rparr>
   \<and> rowIndex demo_polarity ascii_lower ''constructor'' [(''post'', ''hello'')] = 5"
proof -
  have h: "''post'' \<notin> set (map (ascii_lower \<circ> fst) [(''Author'', ''eve'')])"
    by code_simp
  have k: "''post'' \<notin> set Object_prototype_keys" by code_simp
  have l: "length (replicate 11 (0::int)) = 11" by simp
  have e: "normalizedRow ascii_lower [(''Post'', [])] ''post'' = Some []" by code_simp
  have g: "''constructor'' \<in> set Object_prototype_keys" by code_simp
  have j: "''constructor'' \<notin> set (map (ascii_lower \<circ> fst) [(''post'', ''hello'')])"
    by code_simp
  note w = missing_column_is_neutral[of "''post''" ascii_lower "[(''Author'', ''eve'')]"
      demo_polarity "replicate 11 0", OF disjI1[OF h]]
  note v = missing_column_is_neutral[of "''post''" ascii_lower "[(''Post'', [])]" demo_polarity,
      OF disjI2[OF e]]
  note x = missing_column_is_neutral[of "''constructor''" ascii_lower "[(''post'', ''hello'')]"
      demo_polarity, OF disjI1[OF j]]
  from w k have "textOf ascii_lower ''post'' [(''Author'', ''eve'')] = JStr []" by blast
  moreover from w have "rowIndex demo_polarity ascii_lower ''post'' [(''Author'', ''eve'')] = 5"
    by blast
  moreover from w l
  have "onData demo_polarity ascii_lower ''post'' [(''Author'', ''eve'')] (replicate 11 0)
      = (replicate 11 0)[5 := replicate 11 0 ! 5 + 1]" by blast
  moreover have "(replicate 11 (0::int))[5 := replicate 11 0 ! 5 + 1]
      = [0, 0, 0, 0, 0, 1, 0, 0, 0, 0, 0]"
    by code_simp
  moreover from v have "analyzeText demo_polarity (textOf ascii_lower ''post'' [(''Post'', [])])
      = \<lparr>score = 0, redacted = []\<rparr>" by blast
  moreover from x
  have "analyzeText demo_polarity (textOf ascii_lower ''constructor'' [(''post'', ''hello'')])
      = \<lparr>score = 0, redacted = []\<rparr>" by blast
  moreover from x
  have "rowIndex demo_polarity ascii_lower ''constructor'' [(''post'', ''hello'')] = 5" by blast
  ultimately show ?thesis using h k l e g j by simp
qed

lemma incr_commute: "incr (incr bins i) j = incr (incr bins j) i"
proof (cases "i = j")
  case True
  then show ?thesis by simp
next
  case False
  then have "nat i \<noteq> nat j" if "0 \<le> i" "0 \<le> j" using that by simp
  then show ?thesis by (auto simp: incr_def list_update_swap)
qed

lemma onData_commute: "onData p lc c r1 \<circ> onData p lc c r2 = onData p lc c r2 \<circ> onData p lc c r1"
  by (rule ext) (simp add: onData_def incr_commute)

text \<open>
  Claim C9. The histogram of a run does not depend on the order of the rows.
\<close>

theorem histogram_permutation:
  assumes "mset rows = mset rows'"
  shows "histogram p lc c rows = histogram p lc c rows'"
proof -
  have "fold (onData p lc c) rows = fold (onData p lc c) rows'"
    by (rule fold_multiset_equiv[OF _ assms]) (rule onData_commute)
  then show ?thesis by (simp add: histogram_def)
qed

theorem histogram_permutation_witness:
  "mset demo_rows = mset (rev demo_rows)
   \<and> histogram demo_polarity ascii_lower ''post'' (rev demo_rows) = [0, 1, 0, 0, 0, 1, 0, 0, 0, 1, 0]"
proof -
  have m: "mset demo_rows = mset (rev demo_rows)" by simp
  from histogram_permutation[OF m, of demo_polarity ascii_lower "''post''"] demo_histogram m
  show ?thesis by simp
qed

section \<open>The two servers\<close>

text \<open>
  Claim C3, on the code. When the stream emits \<^verbatim>\<open>error\<close> after some rows, neither
  server has a listener for it: nothing is inserted, and no response is sent either.
\<close>

theorem stream_error_unanswered:
  "ingest_index p lc h st
      \<lparr>csv_file = Some \<lparr>path = f, source = Emits (map Data rows @ Failure e # es)\<rparr>,
       post_column = pc, chart_title = ct\<rparr> = (Uncaught e, st)
   \<and> ingest_router p lc st
      \<lparr>csv_file = Some \<lparr>path = f, source = Emits (map Data rows @ Failure e # es)\<rparr>,
       post_column = pc, chart_title = ct\<rparr> = (Uncaught e, st)
   \<and> ingest_index demo_polarity ascii_lower None demo_store
        (demo_upload [Data [(''post'', ''I love this'')], Failure ''EIO: read error''])
       = (Uncaught ''EIO: read error'', demo_store)"
proof -
  have "ingest_index demo_polarity ascii_lower None demo_store
        (demo_upload [Data [(''post'', ''I love this'')], Failure ''EIO: read error''])
       = (Uncaught ''EIO: read error'', demo_store)"
    using ingest_index_failed[of demo_polarity ascii_lower None demo_store "''uploads/tmp''"
        "[[(''post'', ''I love this'')]]" "''EIO: read error''" "[]" None None]
    by (simp add: demo_upload_def)
  then show ?thesis by (simp add: ingest_index_failed ingest_router_failed)
qed

text \<open>
  Claim C6, on the code. When the insert at the end of the stream is rejected, the
  stand-alone server answers 500 with the reason and nothing is stored; the router has
  no \<^verbatim>\<open>try\<close> around the insert, so the rejection escapes from the listener and no
  response is sent.
\<close>

theorem insert_failure_router_silent:
  "ingest_index p lc h (st\<lparr>fault := Some msg\<rparr>)
      \<lparr>csv_file = Some \<lparr>path = f, source = Emits (map Data rows @ End # es)\<rparr>,
       post_column = pc, chart_title = ct\<rparr>
     = (Responded \<lparr>status = 500,
          payload = Error_payload (''Database Persistence Error: '' @ msg)\<rparr>, st\<lparr>fault := Some msg\<rparr>)
   \<and> ingest_router p lc (st\<lparr>fault := Some msg\<rparr>)
      \<lparr>csv_file = Some \<lparr>path = f, source = Emits (map Data rows @ End # es)\<rparr>,
       post_column = pc, chart_title = ct\<rparr>
     = (Uncaught msg, st\<lparr>fault := Some msg\<rparr>)
   \<and> ingest_router demo_polarity ascii_lower (demo_store\<lparr>fault := Some ''ECONNREFUSED''\<rparr>)
        (demo_upload [Data [(''post'', ''I love this'')], End])
     = (Uncaught ''ECONNREFUSED'', demo_store\<lparr>fault := Some ''ECONNREFUSED''\<rparr>)"
proof -
  have "ingest_router demo_polarity ascii_lower (demo_store\<lparr>fault := Some ''ECONNREFUSED''\<rparr>)
        (demo_upload [Data [(''post'', ''I love this'')], End])
     = (Uncaught ''ECONNREFUSED'', demo_store\<lparr>fault := Some ''ECONNREFUSED''\<rparr>)"
    using ingest_router_ended[of demo_polarity ascii_lower "demo_store\<lparr>fault := Some ''ECONNREFUSED''\<rparr>"
        "''uploads/tmp''" "[[(''post'', ''I love this'')]]" "[]" None None]
    by (simp add: demo_upload_def insert_aggregate_def)
  then show ?thesis by (simp add: ingest_index_ended ingest_router_ended insert_aggregate_def)
qed

text \<open>
  Claim C7, on the code. Without a file the stand-alone server answers 400 before it
  touches a stream; the router has no such guard and throws on \<^verbatim>\<open>req.file.path\<close>.
\<close>

theorem no_file_router_rejects:
  "ingest_index p lc h st \<lparr>csv_file = None, post_column = pc, chart_title = ct\<rparr>
     = (Responded \<lparr>status = 400, payload = Error_payload ''No CSV file detected.''\<rparr>, st)
   \<and> ingest_router p lc st \<lparr>csv_file = None, post_column = pc, chart_title = ct\<rparr>
     = (Rejected ''TypeError: cannot read property path of undefined'', st)"
  by (simp add: ingest_index_def ingest_router_def)

text \<open>
  Claim C8, on the code. For an id with no stored record both servers answer 404 with
  an error payload, never a row. When the lookup itself fails, the stand-alone server
  answers 500 with the reason; the router has no \<^verbatim>\<open>try\<close> around the query, so its
  handler rejects and reports nothing.
\<close>

theorem display_fault_router_silent:
  "display_index (st\<lparr>fault := Some msg\<rparr>) i
     = Responded \<lparr>status = 500, payload = Error_payload (''Query Error: '' @ msg)\<rparr>
   \<and> display_router (st\<lparr>fault := Some msg\<rparr>) i = Rejected msg
   \<and> display_index (st\<lparr>table := (table st)(i := None), fault := None\<rparr>) i
     = Responded \<lparr>status = 404, payload = Error_payload ''Dataset not found.''\<rparr>
   \<and> display_router (st\<lparr>table := (table st)(i := None), fault := None\<rparr>) i
     = Responded \<lparr>status = 404, payload = Error_payload ''Record not found''\<rparr>
   \<and> display_index (st\<lparr>table := (table st)(i \<mapsto> a), fault := None\<rparr>) i
     = Responded \<lparr>status = 200, payload = Row_payload (i, a)\<rparr>
   \<and> display_router (st\<lparr>table := (table st)(i \<mapsto> a), fault := None\<rparr>) i
     = Responded \<lparr>status = 200, payload = Row_payload (i, a)\<rparr>
   \<and> display_router (demo_store\<lparr>fault := Some ''ETIMEDOUT''\<rparr>) 7 = Rejected ''ETIMEDOUT''
   \<and> display_index (demo_store\<lparr>fault := Some ''ETIMEDOUT''\<rparr>) 7
     = Responded \<lparr>status = 500, payload = Error_payload ''Query Error: ETIMEDOUT''\<rparr>
   \<and> display_router demo_store 7
     = Responded \<lparr>status = 404, payload = Error_payload ''Record not found''\<rparr>"
  by (simp add: display_index_def display_router_def select_aggregate_def demo_store_def)

end
